theory Spec2Isabelle
  imports Complex_Main "HOL-Library.Log_Nat" "HOL-Library.Multiset"
begin

section \<open>JavaScript strings\<close>

text \<open>
  A JavaScript string is a sequence of UTF-16 code units. The model uses \<^typ>\<open>string\<close>,
  whose characters are the code units below 256 (the Latin-1 range); on that range
  \<^verbatim>\<open>String.prototype.trim\<close>, \<^verbatim>\<open>toLowerCase\<close> and \<^verbatim>\<open>includes\<close> are the functions below.
\<close>

definition code_unit :: "char \<Rightarrow> nat" where
  "code_unit c = of_char c"

definition is_space :: "char \<Rightarrow> bool" where
  \<comment> \<open>WhiteSpace and LineTerminator of ECMAScript below U+0100: TAB, LF, VT, FF, CR, SP, NBSP.\<close>
  "is_space c = (code_unit c \<in> {9, 10, 11, 12, 13, 32, 160})"

definition trim :: "string \<Rightarrow> string" where
  "trim s = rev (dropWhile is_space (rev (dropWhile is_space s)))"

definition lower_char :: "char \<Rightarrow> char" where
  \<comment> \<open>A-Z, and the Latin-1 capitals U+00C0..U+00DE without the multiplication sign U+00D7.\<close>
  "lower_char c =
     (let n = code_unit c
      in if (65 \<le> n \<and> n \<le> 90) \<or> (192 \<le> n \<and> n \<le> 222 \<and> n \<noteq> 215)
         then char_of (n + 32) else c)"

definition toLowerCase :: "string \<Rightarrow> string" where
  "toLowerCase s = map lower_char s"

fun starts_with :: "string \<Rightarrow> string \<Rightarrow> bool" where
  "starts_with s [] = True"
| "starts_with [] (c # t) = False"
| "starts_with (d # s) (c # t) = (d = c \<and> starts_with s t)"

fun str_includes :: "string \<Rightarrow> string \<Rightarrow> bool" where
  \<comment> \<open>\<^verbatim>\<open>s.includes(t)\<close>: \<open>t\<close> occurs in \<open>s\<close> as a contiguous run.\<close>
  "str_includes [] t = (t = [])"
| "str_includes (d # s) t = (starts_with (d # s) t \<or> str_includes s t)"

fun digits :: "nat \<Rightarrow> string" where
  "digits n = (if n < 10 then [char_of (48 + n)] else digits (n div 10) @ [char_of (48 + n mod 10)])"

declare digits.simps [simp del]

definition show_int :: "int \<Rightarrow> string" where
  \<comment> \<open>Number-to-string conversion of an integer, as a template literal does it.\<close>
  "show_int i = (if i < 0 then CHR ''-'' # digits (nat (- i)) else digits (nat i))"

section \<open>The request client: \<^verbatim>\<open>services/api.js\<close>\<close>

subsection \<open>Errors, requests and the backend\<close>

text \<open>
  A thrown value is an \<^verbatim>\<open>Error\<close> object. The fields the code reads or writes are its
  \<^verbatim>\<open>message\<close>, the \<^verbatim>\<open>code\<close> and \<^verbatim>\<open>response\<close> that axios attaches, and the
  \<^verbatim>\<open>originalError\<close> that the two catch blocks attach. A field that is \<^verbatim>\<open>undefined\<close>
  is \<open>None\<close>.
\<close>

datatype body =
    JsonBody (detail: "string option") (body_message: "string option")
  | BlobBody (blob_size: nat)

record http_response =
  status :: int
  data :: "body option"

datatype js_error =
  JsError (message: string) (code: "string option") (response: "http_response option")
    (originalError: "js_error option")

abbreviation new_Error :: "string \<Rightarrow> js_error" where
  "new_Error m \<equiv> JsError m None None None"

record scrape_request =
  job_title :: string
  location :: string
  pages :: int

datatype request =
    Post_scrape scrape_request
  | Get_download string

record job =
  Title :: "string option"
  Company :: "string option"
  Location :: "string option"
  Link :: "string option"

record scrape_result =
  success :: bool
  jobs :: "job list"
  total_jobs :: int
  pages_scraped :: int
  result_message :: "string option"

text \<open>
  The backend is not part of the repository. It is a parameter: what the axios instance
  does with a request, either a rejection with an axios error or the \<^verbatim>\<open>data\<close> of the
  response. Every request handed to axios is appended to a log, so that "no network request
  is issued" is the statement that the log is unchanged.
\<close>

record backend =
  post_scrape :: "scrape_request \<Rightarrow> js_error + scrape_result"
  get_download :: "string \<Rightarrow> js_error + nat"

type_synonym net_log = "request list"

subsection \<open>\<^verbatim>\<open>scrapeJobs\<close>\<close>

definition truthy :: "string option \<Rightarrow> bool" where
  \<comment> \<open>Truthiness of a value that is a string or \<^verbatim>\<open>undefined\<close>.\<close>
  "truthy v = (case v of None \<Rightarrow> False | Some s \<Rightarrow> s \<noteq> [])"

definition or_else :: "string option \<Rightarrow> string \<Rightarrow> string" where
  \<comment> \<open>\<^verbatim>\<open>v || d\<close> for a string-or-undefined \<open>v\<close>.\<close>
  "or_else v d = (case v of None \<Rightarrow> d | Some s \<Rightarrow> if s = [] then d else s)"

definition scrape_try :: "backend \<Rightarrow> string \<Rightarrow> string \<Rightarrow> int \<Rightarrow> net_log \<Rightarrow> (js_error + scrape_result) \<times> net_log" where
  \<comment> \<open>The body of the \<^verbatim>\<open>try\<close> block.\<close>
  "scrape_try be jobTitle loc pgs sent =
     (if jobTitle = [] \<or> trim jobTitle = []
      then (Inl (new_Error ''Job title is required and must be a non-empty string''), sent)
      else if pgs < 1 \<or> pgs > 10
      then (Inl (new_Error ''Pages must be between 1 and 10''), sent)
      else
        let requestData = \<lparr> job_title = trim jobTitle,
                            location = (if trim loc = [] then ''Remote'' else trim loc),
                            pages = (if pgs = 0 then 1 else pgs) \<rparr>
        in (post_scrape be requestData, sent @ [Post_scrape requestData]))"

definition scrape_error_message :: "js_error \<Rightarrow> string" where
  \<comment> \<open>The classification in the \<^verbatim>\<open>catch\<close> block.\<close>
  "scrape_error_message e =
     (case response e of
        Some r \<Rightarrow>
          (let d = (case data r of Some (JsonBody dt _) \<Rightarrow> dt | _ \<Rightarrow> None);
               m = (case data r of Some (JsonBody _ ms) \<Rightarrow> ms | _ \<Rightarrow> None)
           in or_else d (or_else m (''Server error ('' @ show_int (status r) @ '')'')))
      | None \<Rightarrow>
          if code e = Some ''ECONNABORTED'' then ''Request timed out. Scraping took too long.''
          else if code e = Some ''ECONNREFUSED''
          then ''Cannot connect to server. Make sure backend is running.''
          else if message e \<noteq> [] then message e
          else ''Scraping failed'')"

definition scrapeJobs :: "backend \<Rightarrow> string \<Rightarrow> string option \<Rightarrow> int option \<Rightarrow> net_log \<Rightarrow> (js_error + scrape_result) \<times> net_log" where
  \<comment> \<open>\<open>None\<close> for an omitted argument, which takes the default \<^verbatim>\<open>'Remote'\<close> or \<^verbatim>\<open>1\<close>.\<close>
  "scrapeJobs be jobTitle loc pgs sent =
     (case scrape_try be jobTitle (case loc of None \<Rightarrow> ''Remote'' | Some l \<Rightarrow> l)
             (case pgs of None \<Rightarrow> 1 | Some p \<Rightarrow> p) sent of
        (Inr res, sent') \<Rightarrow> (Inr res, sent')
      | (Inl e, sent') \<Rightarrow>
          (Inl (JsError (scrape_error_message e) None (response e) (Some e)), sent'))"

subsection \<open>\<^verbatim>\<open>downloadFile\<close>\<close>

definition validFormats :: "string list" where
  "validFormats = [''csv'', ''excel'', ''json'']"

definition download_try :: "backend \<Rightarrow> string \<Rightarrow> net_log \<Rightarrow> (js_error + nat) \<times> net_log" where
  \<comment> \<open>The body of the \<^verbatim>\<open>try\<close> block; a blob is represented by its size.\<close>
  "download_try be format sent =
     (if format \<notin> set validFormats
      then (Inl (new_Error (''Invalid format: '' @ format)), sent)
      else (get_download be format, sent @ [Get_download format]))"

definition downloadFile :: "backend \<Rightarrow> string \<Rightarrow> net_log \<Rightarrow> (js_error + nat) \<times> net_log" where
  "downloadFile be format sent =
     (case download_try be format sent of
        (Inr blob, sent') \<Rightarrow> (Inr blob, sent')
      | (Inl e, sent') \<Rightarrow> (Inl (JsError ''Download failed'' None (response e) (Some e)), sent'))"

section \<open>The export dispatcher: \<^verbatim>\<open>components/DownloadButtons.js\<close>\<close>

subsection \<open>The current time as an ISO string\<close>

text \<open>
  \<^verbatim>\<open>new Date().toISOString()\<close> renders the UTC fields of the current time as
  \<^verbatim>\<open>YYYY-MM-DDTHH:mm:ss.sssZ\<close>, and a year outside 0..9999 with a sign and six digits.
  The clock is an input; its reading is given by its UTC fields.
\<close>

record utc_time =
  year :: int
  month :: nat
  day :: nat
  hours :: nat
  minutes :: nat
  seconds :: nat
  millis :: nat

definition pad :: "nat \<Rightarrow> nat \<Rightarrow> string" where
  \<comment> \<open>Decimal digits, zero-padded on the left to the given width.\<close>
  "pad w n = replicate (w - length (digits n)) CHR ''0'' @ digits n"

definition toISOString :: "utc_time \<Rightarrow> string" where
  "toISOString t =
     (if 0 \<le> year t \<and> year t \<le> 9999 then pad 4 (nat (year t))
      else (if year t < 0 then CHR ''-'' else CHR ''+'') # pad 6 (nat \<bar>year t\<bar>))
     @ ''-'' @ pad 2 (month t) @ ''-'' @ pad 2 (day t)
     @ ''T'' @ pad 2 (hours t) @ '':'' @ pad 2 (minutes t) @ '':'' @ pad 2 (seconds t)
     @ ''.'' @ pad 3 (millis t) @ ''Z''"

definition replace_colon_period :: "string \<Rightarrow> string" where
  \<comment> \<open>\<^verbatim>\<open>.replace(/[:.]/g, '-')\<close>\<close>
  "replace_colon_period s = map (\<lambda>c. if c = CHR '':'' \<or> c = CHR ''.'' then CHR ''-'' else c) s"

definition file_timestamp :: "utc_time \<Rightarrow> string" where
  \<comment> \<open>\<^verbatim>\<open>new Date().toISOString().replace(/[:.]/g, '-').substring(0, 19)\<close>\<close>
  "file_timestamp t = take 19 (replace_colon_period (toISOString t))"

definition extensions :: "string \<rightharpoonup> string" where
  \<comment> \<open>The object literal \<^verbatim>\<open>{ csv: 'csv', excel: 'xlsx', json: 'json' }\<close>.\<close>
  "extensions = [''csv'' \<mapsto> ''csv'', ''excel'' \<mapsto> ''xlsx'', ''json'' \<mapsto> ''json'']"

definition make_filename :: "utc_time \<Rightarrow> string \<Rightarrow> string" where
  \<comment> \<open>The lookup is reached only with a format that \<^verbatim>\<open>downloadFile\<close> has accepted; a
      format without an entry would be rendered as \<^verbatim>\<open>undefined\<close>.\<close>
  "make_filename t format =
     ''indeed-jobs-'' @ file_timestamp t @ ''.'' @
       (case extensions format of Some ext \<Rightarrow> ext | None \<Rightarrow> ''undefined'')"

subsection \<open>Component state and \<^verbatim>\<open>handleDownload\<close>\<close>

record download_info =
  d_format :: string
  d_filename :: string
  d_timestamp :: string
  d_size :: nat

record download_stats =
  totalDownloads :: nat
  lastDownload :: "download_info option"
  downloadHistory :: "download_info list"

text \<open>
  The state that \<^verbatim>\<open>handleDownload\<close> reads and writes: the two React state cells, the
  messages shown with \<^verbatim>\<open>alert\<close>, the files handed to the browser by \<^verbatim>\<open>link.click()\<close>, and
  the requests issued so far.
\<close>

record ui_state =
  downloading :: "string \<rightharpoonup> bool"
  downloadStats :: download_stats
  alerts :: "string list"
  saved :: "string list"
  requests :: net_log

text \<open>
  What the run of one handler depends on besides its arguments: the backend, whether the
  dynamic \<^verbatim>\<open>import\<close> or the DOM calls throw, and the two readings of the clock.
\<close>

record download_env =
  server :: backend
  import_error :: "js_error option"
  dom_error :: "js_error option"
  now_filename :: utc_time
  now_info :: utc_time

definition slice_last10 :: "'a list \<Rightarrow> 'a list" where
  \<comment> \<open>\<^verbatim>\<open>.slice(-10)\<close>\<close>
  "slice_last10 xs = drop (length xs - 10) xs"

definition download_body :: "download_env \<Rightarrow> string \<Rightarrow> ui_state \<Rightarrow> js_error option \<times> ui_state" where
  \<comment> \<open>The \<^verbatim>\<open>try\<close> block: \<open>Some e\<close> when it throws \<open>e\<close>.\<close>
  "download_body env format s =
     (case import_error env of
        Some e \<Rightarrow> (Some e, s)
      | None \<Rightarrow>
         (case downloadFile (server env) format (requests s) of
            (Inl e, sent') \<Rightarrow> (Some e, s\<lparr>requests := sent'\<rparr>)
          | (Inr blob, sent') \<Rightarrow>
             (case dom_error env of
                Some e \<Rightarrow> (Some e, s\<lparr>requests := sent'\<rparr>)
              | None \<Rightarrow>
                 let filename = make_filename (now_filename env) format;
                     downloadInfo = \<lparr> d_format = format, d_filename = filename,
                                      d_timestamp = toISOString (now_info env), d_size = blob \<rparr>;
                     prev = downloadStats s
                 in (None,
                     s\<lparr> requests := sent',
                        saved := saved s @ [filename],
                        downloadStats :=
                          \<lparr> totalDownloads = totalDownloads prev + 1,
                            lastDownload = Some downloadInfo,
                            downloadHistory = slice_last10 (downloadHistory prev @ [downloadInfo]) \<rparr> \<rparr>))))"

definition catch_message :: "js_error \<Rightarrow> string" where
  \<comment> \<open>\<^verbatim>\<open>`Download failed: ${error.response?.data?.detail || error.message}`\<close>\<close>
  "catch_message e =
     ''Download failed: '' @
       or_else (case response e of
                  None \<Rightarrow> None
                | Some r \<Rightarrow> (case data r of Some (JsonBody dt _) \<Rightarrow> dt | _ \<Rightarrow> None))
               (message e)"

definition handleDownload :: "download_env \<Rightarrow> bool \<Rightarrow> string \<Rightarrow> ui_state \<Rightarrow> ui_state" where
  "handleDownload env hasData format s =
     (if \<not> hasData then s
      else
        let s1 = s\<lparr>downloading := (downloading s)(format \<mapsto> True)\<rparr>;
            (thrown, s2) = download_body env format s1;
            s3 = (case thrown of
                    None \<Rightarrow> s2
                  | Some e \<Rightarrow> s2\<lparr>alerts := alerts s2 @ [catch_message e]\<rparr>)
        in s3\<lparr>downloading := (downloading s3)(format \<mapsto> False)\<rparr>)"

section \<open>The job table: \<^verbatim>\<open>App.js\<close>\<close>

subsection \<open>Numbers\<close>

text \<open>
  A JavaScript number is an IEEE 754 double. A finite double is a rational number, and the
  result of an arithmetic operation is the exact result rounded to the nearest double, that
  is to 53 significant bits, a tie going to the even significand. The exponent range is not
  modelled (no overflow, no subnormal numbers): the quotients and products formed below are
  0 or lie between \<open>1 / 2 ^ 32\<close> and 100 for every array, whose length is below \<open>2 ^ 32\<close>.
\<close>

definition pow2 :: "int \<Rightarrow> rat" where
  "pow2 e = (if 0 \<le> e then 2 ^ nat e else 1 / 2 ^ nat (- e))"

definition round_half_even :: "rat \<Rightarrow> int" where
  "round_half_even q =
     (let f = \<lfloor>q\<rfloor>; r = q - of_int f
      in if r < 1 / 2 then f else if 1 / 2 < r then f + 1 else if even f then f else f + 1)"

definition binade :: "rat \<Rightarrow> int" where
  \<comment> \<open>For \<open>x > 0\<close>, the exponent \<open>e\<close> with \<open>2 ^ e \<le> x < 2 ^ (e + 1)\<close>.\<close>
  "binade x =
     (let (p, q) = quotient_of x; d = bitlen p - bitlen q
      in if pow2 d \<le> x then d else d - 1)"

definition to_double :: "rat \<Rightarrow> rat" where
  "to_double x =
     (if x = 0 then 0
      else let u = pow2 (binade \<bar>x\<bar> - 52)
           in sgn x * of_int (round_half_even (\<bar>x\<bar> / u)) * u)"

definition double_div :: "rat \<Rightarrow> rat \<Rightarrow> rat" where
  "double_div a b = to_double (a / b)"

definition double_mul :: "rat \<Rightarrow> rat \<Rightarrow> rat" where
  "double_mul a b = to_double (a * b)"

definition Math_round :: "rat \<Rightarrow> int" where
  \<comment> \<open>The nearest integer, a tie going up.\<close>
  "Math_round x = \<lfloor>x + 1 / 2\<rfloor>"

subsection \<open>\<^verbatim>\<open>analytics\<close>\<close>

text \<open>
  The two frequency tables are objects used as dictionaries; here they are association
  lists in the order in which the keys were first stored. An assignment to the key
  \<^verbatim>\<open>__proto__\<close> of an object literal goes to the inherited setter, which ignores a value
  that is not an object, so that key is never stored. Under a key that names another member
  of \<^verbatim>\<open>Object.prototype\<close> JavaScript stores a string instead of a count; the stored counts
  are read only by the two top-three lists, which are left out of the summary below.
\<close>

definition bump :: "string \<Rightarrow> (string \<times> nat) list \<Rightarrow> (string \<times> nat) list" where
  \<comment> \<open>\<^verbatim>\<open>table[key] = (table[key] || 0) + 1\<close>\<close>
  "bump k table =
     (if k = ''__proto__'' then table
      else case map_of table k of
             None \<Rightarrow> table @ [(k, 1)]
           | Some n \<Rightarrow> map (\<lambda>(k', n'). if k' = k then (k', n' + 1) else (k', n')) table)"

definition count_by :: "(job \<Rightarrow> string option) \<Rightarrow> job list \<Rightarrow> (string \<times> nat) list" where
  \<comment> \<open>One of the two tables after the \<^verbatim>\<open>forEach\<close>.\<close>
  "count_by field js = foldl (\<lambda>table j. bump (or_else (field j) ''Unknown'') table) [] js"

definition valid_link :: "job \<Rightarrow> bool" where
  \<comment> \<open>\<^verbatim>\<open>job.Link && job.Link !== 'N/A'\<close>\<close>
  "valid_link j = (truthy (Link j) \<and> Link j \<noteq> Some ''N/A'')"

record analytics_summary =
  totalJobs :: nat
  uniqueCompanies :: nat
  uniqueLocations :: nat
  validLinksPercentage :: int

definition analytics :: "job list option \<Rightarrow> analytics_summary option" where
  \<comment> \<open>\<open>None\<close> as argument is an \<^verbatim>\<open>undefined\<close> prop, \<open>None\<close> as result is \<^verbatim>\<open>null\<close>.\<close>
  "analytics jobs_prop =
     (case jobs_prop of
        None \<Rightarrow> None
      | Some js \<Rightarrow>
          if length js = 0 then None
          else
            let validLinks = length (filter valid_link js);
                companies = count_by Company js;
                locations = count_by Location js
            in Some \<lparr> totalJobs = length js,
                      uniqueCompanies = length (map fst companies),
                      uniqueLocations = length (map fst locations),
                      validLinksPercentage =
                        Math_round (double_mul (double_div (of_nat validLinks) (of_nat (length js))) 100) \<rparr>)"

subsection \<open>\<^verbatim>\<open>processedJobs\<close>\<close>

definition field_matches :: "string \<Rightarrow> string option \<Rightarrow> bool" where
  \<comment> \<open>\<^verbatim>\<open>job.F?.toLowerCase().includes(filterText.toLowerCase())\<close>, as a condition.\<close>
  "field_matches filterText v =
     (case v of None \<Rightarrow> False | Some s \<Rightarrow> str_includes (toLowerCase s) (toLowerCase filterText))"

definition passes :: "string \<Rightarrow> job \<Rightarrow> bool" where
  "passes filterText j =
     (field_matches filterText (Title j) \<or> field_matches filterText (Company j)
      \<or> field_matches filterText (Location j))"

datatype sort_field = SortTitle | SortCompany | SortLocation

datatype sort_direction = Asc | Desc

fun field_of :: "sort_field \<Rightarrow> job \<Rightarrow> string option" where
  "field_of SortTitle j = Title j"
| "field_of SortCompany j = Company j"
| "field_of SortLocation j = Location j"

text \<open>
  \<^verbatim>\<open>localeCompare\<close> compares by the collation of the browser's locale, which is not part of
  the repository: it is the parameter \<open>collate\<close>, negative, zero or positive.
\<close>

definition compare_jobs :: "(string \<Rightarrow> string \<Rightarrow> int) \<Rightarrow> sort_field \<Rightarrow> sort_direction \<Rightarrow> job \<Rightarrow> job \<Rightarrow> int" where
  \<comment> \<open>The comparator handed to \<^verbatim>\<open>sort\<close>.\<close>
  "compare_jobs collate f dir a b =
     (let aVal = or_else (field_of f a) [];
          bVal = or_else (field_of f b) [];
          comparison = collate aVal bVal
      in if dir = Asc then comparison else - comparison)"

text \<open>
  \<^verbatim>\<open>Array.prototype.sort\<close> is a stable sort (ECMAScript 2019): with a consistent comparator
  its result is the one ordering that is sorted and keeps elements that compare equal in
  their input order. Insertion from the right computes this ordering.
\<close>

fun insert_sorted :: "('a \<Rightarrow> 'a \<Rightarrow> int) \<Rightarrow> 'a \<Rightarrow> 'a list \<Rightarrow> 'a list" where
  "insert_sorted cmp x [] = [x]"
| "insert_sorted cmp x (y # ys) =
     (if cmp x y \<le> 0 then x # y # ys else y # insert_sorted cmp x ys)"

definition array_sort :: "('a \<Rightarrow> 'a \<Rightarrow> int) \<Rightarrow> 'a list \<Rightarrow> 'a list" where
  "array_sort cmp xs = foldr (insert_sorted cmp) xs []"

definition processedJobs :: "(string \<Rightarrow> string \<Rightarrow> int) \<Rightarrow> job list option \<Rightarrow> string \<Rightarrow> sort_field option \<Rightarrow> sort_direction \<Rightarrow> job list" where
  \<comment> \<open>\<open>sortField = None\<close> is the empty string of the source, no sort.\<close>
  "processedJobs collate jobs_prop filterText sortField sortDirection =
     (case jobs_prop of
        None \<Rightarrow> []
      | Some js \<Rightarrow>
          let filtered = (if trim filterText \<noteq> [] then filter (passes filterText) js else js)
          in (case sortField of
                None \<Rightarrow> filtered
              | Some f \<Rightarrow> array_sort (compare_jobs collate f sortDirection) filtered))"

section \<open>Comparators and sample inputs\<close>

text \<open>
  ECMAScript fixes the result of \<^verbatim>\<open>sort\<close> only for a consistent comparator: every value
  compares equal to itself, swapping the arguments swaps the sign, and the order is
  transitive. \<^verbatim>\<open>localeCompare\<close> is one.
\<close>

definition consistent_comparator :: "('a \<Rightarrow> 'a \<Rightarrow> int) \<Rightarrow> bool" where
  "consistent_comparator cmp \<longleftrightarrow>
     (\<forall>a. cmp a a = 0) \<and> (\<forall>a b. (cmp a b < 0) = (0 < cmp b a)) \<and>
     (\<forall>a b c. cmp a b \<le> 0 \<and> cmp b c \<le> 0 \<longrightarrow> cmp a c \<le> 0)"

text \<open>
  One collation, to run the sort on concrete inputs: the comparison by code units.
\<close>

fun compare_units :: "string \<Rightarrow> string \<Rightarrow> int" where
  "compare_units [] [] = 0"
| "compare_units [] (b # t) = - 1"
| "compare_units (a # s) [] = 1"
| "compare_units (a # s) (b # t) =
     (if code_unit a < code_unit b then - 1
      else if code_unit b < code_unit a then 1
      else compare_units s t)"

text \<open>The three records of the specification's examples; the fields not given are absent.\<close>

definition acme_engineer :: job where
  "acme_engineer = \<lparr> Title = Some ''Engineer'', Company = Some ''Acme'', Location = None, Link = None \<rparr>"

definition acme_untitled :: job where
  "acme_untitled = \<lparr> Title = Some [], Company = Some ''Acme'', Location = None, Link = None \<rparr>"

definition beta_analyst :: job where
  "beta_analyst = \<lparr> Title = Some ''Analyst'', Company = Some ''Beta'', Location = None, Link = None \<rparr>"

definition sample_jobs :: "job list" where
  "sample_jobs = [acme_engineer, acme_untitled, beta_analyst]"

text \<open>Forty records, twenty-three of them with a link.\<close>

definition forty_jobs :: "job list" where
  "forty_jobs =
     replicate 23 \<lparr> Title = Some ''Nurse'', Company = Some ''Acme'', Location = Some ''Remote'',
                     Link = Some ''https://www.indeed.com/viewjob?jk=1'' \<rparr>
     @ replicate 17 \<lparr> Title = Some ''Nurse'', Company = Some ''Acme'', Location = Some ''Remote'',
                       Link = Some ''N/A'' \<rparr>"

text \<open>A backend that answers every request, and one that lets every request time out.\<close>

definition serving :: backend where
  "serving =
     \<lparr> post_scrape = (\<lambda>r. Inr \<lparr> success = True, jobs = sample_jobs, total_jobs = 3,
                                  pages_scraped = pages r, result_message = None \<rparr>),
       get_download = (\<lambda>f. Inr 2048) \<rparr>"

definition offline :: backend where
  "offline =
     \<lparr> post_scrape = (\<lambda>r. Inl (JsError ''timeout of 300000ms exceeded'' (Some ''ECONNABORTED'') None None)),
       get_download = (\<lambda>f. Inl (JsError ''timeout of 300000ms exceeded'' (Some ''ECONNABORTED'') None None)) \<rparr>"

definition sample_time :: utc_time where
  "sample_time = \<lparr> year = 2024, month = 1, day = 15, hours = 10, minutes = 30, seconds = 45, millis = 123 \<rparr>"

definition sample_env :: "backend \<Rightarrow> download_env" where
  "sample_env be =
     \<lparr> server = be, import_error = None, dom_error = None,
       now_filename = sample_time, now_info = sample_time \<rparr>"

definition initial_state :: ui_state where
  \<comment> \<open>The component as it is mounted.\<close>
  "initial_state =
     \<lparr> downloading = Map.empty,
       downloadStats = \<lparr> totalDownloads = 0, lastDownload = None, downloadHistory = [] \<rparr>,
       alerts = [], saved = [], requests = [] \<rparr>"

section \<open>Strings\<close>

lemma starts_with_iff: "starts_with s t \<longleftrightarrow> (\<exists>q. s = t @ q)"
  by (induction s t rule: starts_with.induct) auto

lemma str_includes_iff: "str_includes s t \<longleftrightarrow> (\<exists>p q. s = p @ t @ q)"
proof (induction s)
  case Nil
  then show ?case by simp
next
  case (Cons d s)
  show ?case
  proof
    assume "str_includes (d # s) t"
    then consider "starts_with (d # s) t" | "str_includes s t" by auto
    then show "\<exists>p q. d # s = p @ t @ q"
    proof cases
      case 1
      then obtain q where "d # s = t @ q" using starts_with_iff by blast
      then have "d # s = [] @ t @ q" by simp
      then show ?thesis by blast
    next
      case 2
      then obtain p q where "s = p @ t @ q" using Cons.IH by blast
      then have "d # s = (d # p) @ t @ q" by simp
      then show ?thesis by blast
    qed
  next
    assume "\<exists>p q. d # s = p @ t @ q"
    then obtain p q where pq: "d # s = p @ t @ q" by blast
    show "str_includes (d # s) t"
    proof (cases p)
      case Nil
      then have "starts_with (d # s) t" using pq starts_with_iff by auto
      then show ?thesis by simp
    next
      case (Cons a p')
      then have "s = p' @ t @ q" using pq by simp
      then have "str_includes s t" using Cons.IH by blast
      then show ?thesis by simp
    qed
  qed
qed

lemma trim_empty_iff: "trim s = [] \<longleftrightarrow> (\<forall>c \<in> set s. is_space c)"
proof
  assume "trim s = []"
  then have "dropWhile is_space (rev (dropWhile is_space s)) = []" by (simp add: trim_def)
  then have "\<forall>c \<in> set (rev (dropWhile is_space s)). is_space c" by (simp add: dropWhile_eq_Nil_conv)
  then have "\<forall>c \<in> set (dropWhile is_space s). is_space c" by simp
  then have "dropWhile is_space s = []"
    by (metis dropWhile_eq_Nil_conv hd_dropWhile list.set_sel(1))
  then show "\<forall>c \<in> set s. is_space c" by (simp add: dropWhile_eq_Nil_conv)
next
  assume "\<forall>c \<in> set s. is_space c"
  then show "trim s = []" by (auto simp: trim_def dest: set_dropWhileD)
qed

lemma passes_iff:
  "passes ft j \<longleftrightarrow>
     (\<exists>s p q. (Title j = Some s \<or> Company j = Some s \<or> Location j = Some s) \<and>
               toLowerCase s = p @ toLowerCase ft @ q)"
  unfolding passes_def field_matches_def str_includes_iff
  by (cases "Title j"; cases "Company j"; cases "Location j") auto


section \<open>The file name\<close>

lemma file_timestamp_safe:
  "CHR '':'' \<notin> set (file_timestamp t) \<and> CHR ''.'' \<notin> set (file_timestamp t)"
proof -
  have "set (file_timestamp t) \<subseteq> set (replace_colon_period (toISOString t))"
    unfolding file_timestamp_def by (rule set_take_subset)
  moreover have "CHR '':'' \<notin> set (replace_colon_period u) \<and> CHR ''.'' \<notin> set (replace_colon_period u)" for u
    by (auto simp: replace_colon_period_def)
  ultimately show ?thesis by blast
qed

lemma digit_char_plain:
  assumes "d < 10"
  shows "char_of (48 + d :: nat) \<noteq> CHR '':'' \<and> char_of (48 + d) \<noteq> CHR ''.''"
proof -
  have v: "(of_char (char_of (48 + d) :: char) :: nat) = 48 + d" using assms by simp
  have "char_of (48 + d) \<noteq> CHR '':''"
  proof
    assume "char_of (48 + d) = CHR '':''"
    then have "(of_char (char_of (48 + d) :: char) :: nat) = of_char CHR '':''" by simp
    then have "48 + d = (58 :: nat)" using v by simp
    then show False using assms by simp
  qed
  moreover have "char_of (48 + d) \<noteq> CHR ''.''"
  proof
    assume "char_of (48 + d) = CHR ''.''"
    then have "(of_char (char_of (48 + d) :: char) :: nat) = of_char CHR ''.''" by simp
    then have "48 + d = (46 :: nat)" using v by simp
    then show False by simp
  qed
  ultimately show ?thesis by simp
qed

lemma digits_plain: "replace_colon_period (digits n) = digits n"
proof (induction n rule: digits.induct)
  case (1 n)
  have m: "n mod 10 < 10" by simp
  show ?case
  proof (cases "n < 10")
    case True
    then show ?thesis using digit_char_plain[of n]
      by (subst (1 2) digits.simps) (simp add: replace_colon_period_def)
  next
    case False
    then show ?thesis using 1 digit_char_plain[OF m]
      by (subst (1 2) digits.simps) (simp add: replace_colon_period_def)
  qed
qed

lemma digits_length: "0 < w \<Longrightarrow> n < 10 ^ w \<Longrightarrow> length (digits n) \<le> w"
proof (induction n arbitrary: w rule: digits.induct)
  case (1 n)
  show ?case
  proof (cases "n < 10")
    case True
    then show ?thesis using 1(2) by (subst digits.simps) simp
  next
    case False
    then obtain v where w: "w = Suc v" using 1(2) by (cases w) auto
    have "v \<noteq> 0" using False 1(3) w by (cases v) auto
    moreover have "n div 10 < 10 ^ v" using 1(3) w by (simp add: less_mult_imp_div_less mult.commute)
    ultimately have "length (digits (n div 10)) \<le> v" using 1(1)[OF False, of v] by simp
    then show ?thesis using False w by (subst digits.simps) simp
  qed
qed

lemma pad_length: "0 < w \<Longrightarrow> n < 10 ^ w \<Longrightarrow> length (pad w n) = w"
  using digits_length[of w n] by (simp add: pad_def)

lemma pad_plain: "replace_colon_period (pad w n) = pad w n"
  using digits_plain[of n] by (simp add: pad_def replace_colon_period_def)

lemma file_timestamp_render:
  assumes "0 \<le> year t" "year t \<le> 9999" "month t < 100" "day t < 100" "hours t < 100"
    "minutes t < 100" "seconds t < 100"
  shows "file_timestamp t =
           pad 4 (nat (year t)) @ ''-'' @ pad 2 (month t) @ ''-'' @ pad 2 (day t) @ ''T'' @
           pad 2 (hours t) @ ''-'' @ pad 2 (minutes t) @ ''-'' @ pad 2 (seconds t)"
proof -
  have l: "length (pad 4 (nat (year t))) = 4" "length (pad 2 (month t)) = 2"
    "length (pad 2 (day t)) = 2" "length (pad 2 (hours t)) = 2"
    "length (pad 2 (minutes t)) = 2" "length (pad 2 (seconds t)) = 2"
    using assms by (simp_all add: pad_length)
  have r: "replace_colon_period (a @ b) = replace_colon_period a @ replace_colon_period b" for a b
    by (simp add: replace_colon_period_def)
  have c: "replace_colon_period (x # a) = (if x = CHR '':'' \<or> x = CHR ''.'' then CHR ''-'' else x) # replace_colon_period a" for x a
    by (simp add: replace_colon_period_def)
  show ?thesis
    using assms l by (simp add: file_timestamp_def toISOString_def r c pad_plain)
qed

section \<open>The stable sort\<close>

lemma cc_refl: "consistent_comparator cmp \<Longrightarrow> cmp a a = 0"
  by (simp add: consistent_comparator_def)

lemma cc_flip: "consistent_comparator cmp \<Longrightarrow> (cmp a b < 0) = (0 < cmp b a)"
  by (simp add: consistent_comparator_def)

lemma cc_trans: "consistent_comparator cmp \<Longrightarrow> cmp a b \<le> 0 \<Longrightarrow> cmp b c \<le> 0 \<Longrightarrow> cmp a c \<le> 0"
  unfolding consistent_comparator_def by blast

lemma cc_eq_sym: "consistent_comparator cmp \<Longrightarrow> (cmp a b = 0) = (cmp b a = 0)"
  using cc_flip[of cmp a b] cc_flip[of cmp b a] by linarith

lemma cc_ge_flip: "consistent_comparator cmp \<Longrightarrow> (0 \<le> cmp a b) = (cmp b a \<le> 0)"
  using cc_flip[of cmp a b] cc_flip[of cmp b a] by linarith

lemma cc_eq_trans:
  assumes "consistent_comparator cmp" "cmp a b = 0" "cmp b c = 0"
  shows "cmp a c = 0"
proof -
  have "cmp a c \<le> 0" using cc_trans[OF assms(1), of a b c] assms by simp
  moreover have "cmp c b = 0" "cmp b a = 0" using assms cc_eq_sym by metis+
  then have "cmp c a \<le> 0" using cc_trans[OF assms(1), of c b a] by simp
  then have "0 \<le> cmp a c" using cc_ge_flip[OF assms(1)] by simp
  ultimately show ?thesis by simp
qed

lemma cc_negate:
  assumes "consistent_comparator cmp"
  shows "consistent_comparator (\<lambda>a b. - cmp a b)"
  unfolding consistent_comparator_def
proof (intro conjI allI impI)
  fix a show "- cmp a a = 0" using cc_refl[OF assms] by simp
next
  fix a b show "(- cmp a b < 0) = (0 < - cmp b a)" using cc_flip[OF assms, of b a] by simp
next
  fix a b c assume "- cmp a b \<le> 0 \<and> - cmp b c \<le> 0"
  then have "cmp c b \<le> 0" "cmp b a \<le> 0" using cc_ge_flip[OF assms] by simp_all
  then have "cmp c a \<le> 0" using cc_trans[OF assms] by blast
  then show "- cmp a c \<le> 0" using cc_ge_flip[OF assms] by simp
qed

lemma cc_on_key:
  assumes "consistent_comparator cmp"
  shows "consistent_comparator (\<lambda>a b. cmp (k a) (k b))"
  unfolding consistent_comparator_def
  using cc_refl[OF assms] cc_flip[OF assms] cc_trans[OF assms] by blast

lemma compare_jobs_asc: "compare_jobs collate f Asc = (\<lambda>a b. collate (or_else (field_of f a) []) (or_else (field_of f b) []))"
  by (simp add: compare_jobs_def fun_eq_iff)

lemma compare_jobs_desc: "compare_jobs collate f Desc = (\<lambda>a b. - compare_jobs collate f Asc a b)"
  by (simp add: compare_jobs_def fun_eq_iff)

lemma cc_compare_jobs:
  assumes "consistent_comparator collate"
  shows "consistent_comparator (compare_jobs collate f dir)"
proof (cases dir)
  case Asc
  then show ?thesis using cc_on_key[OF assms] by (simp add: compare_jobs_asc)
next
  case Desc
  have "consistent_comparator (compare_jobs collate f Asc)"
    using cc_on_key[OF assms] by (simp add: compare_jobs_asc)
  then show ?thesis using Desc cc_negate by (simp add: compare_jobs_desc)
qed

lemma insert_sorted_set: "set (insert_sorted cmp x ys) = insert x (set ys)"
  by (induction ys) auto

lemma insert_sorted_sorted:
  assumes "consistent_comparator cmp" "sorted_wrt (\<lambda>a b. cmp a b \<le> 0) ys"
  shows "sorted_wrt (\<lambda>a b. cmp a b \<le> 0) (insert_sorted cmp x ys)"
  using assms(2)
proof (induction ys)
  case Nil
  then show ?case by simp
next
  case (Cons y ys)
  show ?case
  proof (cases "cmp x y \<le> 0")
    case True
    then have "\<forall>z \<in> set ys. cmp x z \<le> 0"
      using Cons.prems cc_trans[OF assms(1), of x y] by auto
    then show ?thesis using True Cons.prems by simp
  next
    case False
    then have "cmp y x \<le> 0" using cc_flip[OF assms(1), of y x] by simp
    then show ?thesis using False Cons by (simp add: insert_sorted_set)
  qed
qed

lemma array_sort_sorted:
  assumes "consistent_comparator cmp"
  shows "sorted_wrt (\<lambda>a b. cmp a b \<le> 0) (array_sort cmp xs)"
  unfolding array_sort_def
  by (induction xs) (simp_all add: insert_sorted_sorted[OF assms])

lemma insert_sorted_segment:
  assumes "\<And>a b. P a \<Longrightarrow> P b \<Longrightarrow> cmp a b = 0"
  shows "filter P (insert_sorted cmp x ys) = (if P x then x # filter P ys else filter P ys)"
proof (induction ys)
  case Nil
  then show ?case by simp
next
  case (Cons y ys)
  show ?case
  proof (cases "cmp x y \<le> 0")
    case True
    then show ?thesis by simp
  next
    case False
    then have "\<not> (P x \<and> P y)" using assms[of x y] by auto
    then show ?thesis using False Cons by auto
  qed
qed

lemma array_sort_segment:
  assumes "\<And>a b. P a \<Longrightarrow> P b \<Longrightarrow> cmp a b = 0"
  shows "filter P (array_sort cmp xs) = filter P xs"
  unfolding array_sort_def
  by (induction xs) (simp_all add: insert_sorted_segment[of P cmp, OF assms])

lemma array_sort_stable:
  assumes "consistent_comparator cmp"
  shows "filter (\<lambda>j. cmp j k = 0) (array_sort cmp xs) = filter (\<lambda>j. cmp j k = 0) xs"
proof (rule array_sort_segment)
  fix a b assume "cmp a k = 0" "cmp b k = 0"
  then show "cmp a b = 0" using cc_eq_trans[OF assms, of a k b] cc_eq_sym[OF assms, of b k] by simp
qed

lemma insert_sorted_mset: "mset (insert_sorted cmp x ys) = add_mset x (mset ys)"
  by (induction ys) auto

lemma array_sort_mset: "mset (array_sort cmp xs) = mset xs"
  unfolding array_sort_def by (induction xs) (auto simp: insert_sorted_mset)

lemma sorted_same_classes:
  assumes cc: "consistent_comparator cmp"
  shows "sorted_wrt (\<lambda>a b. cmp a b \<le> 0) xs \<Longrightarrow> sorted_wrt (\<lambda>a b. cmp a b \<le> 0) ys \<Longrightarrow>
         (\<And>k. length (filter (\<lambda>j. cmp j k = 0) xs) = length (filter (\<lambda>j. cmp j k = 0) ys)) \<Longrightarrow>
         length xs = length ys \<Longrightarrow>
         list_all2 (\<lambda>a b. cmp a b = 0) xs ys"
proof (induction xs arbitrary: ys)
  case Nil
  then show ?case by simp
next
  case (Cons x xs)
  then obtain y ys' where ys: "ys = y # ys'" by (cases ys) auto
  have cx: "0 < length (filter (\<lambda>j. cmp j x = 0) ys)"
    using Cons.prems(3)[of x, symmetric] cc_refl[OF cc, of x] by simp
  then obtain y' where y': "y' \<in> set ys" "cmp y' x = 0"
    by (metis (mono_tags, lifting) filter_False length_0_conv less_numeral_extra(3))
  have "cmp y y' \<le> 0" using y'(1) Cons.prems(2) ys cc_refl[OF cc, of y] by auto
  then have yx: "cmp y x \<le> 0" using cc_trans[OF cc, of y y' x] y'(2) by simp
  have cy: "0 < length (filter (\<lambda>j. cmp j y = 0) (x # xs))"
    using Cons.prems(3)[of y] ys cc_refl[OF cc, of y] by simp
  then obtain x' where x': "x' \<in> set (x # xs)" "cmp x' y = 0"
    by (metis (mono_tags, lifting) filter_False length_0_conv less_numeral_extra(3))
  have "cmp x x' \<le> 0" using x'(1) Cons.prems(1) cc_refl[OF cc, of x] by auto
  then have xy: "cmp x y \<le> 0" using cc_trans[OF cc, of x x' y] x'(2) by simp
  have e: "cmp x y = 0" using xy yx cc_ge_flip[OF cc, of x y] by simp
  have same: "(cmp x k = 0) = (cmp y k = 0)" for k
    using e cc_eq_trans[OF cc] cc_eq_sym[OF cc] by metis
  have "length (filter (\<lambda>j. cmp j k = 0) xs) = length (filter (\<lambda>j. cmp j k = 0) ys')" for k
    using Cons.prems(3)[of k] ys same[of k] by (simp split: if_splits)
  then have "list_all2 (\<lambda>a b. cmp a b = 0) xs ys'"
    using Cons.IH[of ys'] Cons.prems ys by simp
  then show ?case using e ys by simp
qed


lemma sorted_same_segments:
  assumes cc: "consistent_comparator cmp"
  shows "sorted_wrt (\<lambda>a b. cmp a b \<le> 0) xs \<Longrightarrow> sorted_wrt (\<lambda>a b. cmp a b \<le> 0) ys \<Longrightarrow>
         (\<And>k. filter (\<lambda>j. cmp j k = 0) xs = filter (\<lambda>j. cmp j k = 0) ys) \<Longrightarrow> xs = ys"
proof (induction xs arbitrary: ys)
  case Nil
  show ?case
  proof (cases ys)
    case Nil
    then show ?thesis by simp
  next
    case (Cons y ys')
    then show ?thesis using Nil.prems(3)[of y] cc_refl[OF cc, of y] by simp
  qed
next
  case (Cons x xs)
  have "ys \<noteq> []" using Cons.prems(3)[of x] cc_refl[OF cc, of x] by auto
  then obtain y ys' where ys: "ys = y # ys'" by (cases ys) auto
  have "x \<in> set (filter (\<lambda>j. cmp j x = 0) ys)"
    using Cons.prems(3)[of x, symmetric] cc_refl[OF cc, of x] by simp
  then have "x \<in> set ys" by (auto split: if_splits)
  then have yx: "cmp y x \<le> 0" using Cons.prems(2) ys cc_refl[OF cc, of y] by auto
  have "y \<in> set (filter (\<lambda>j. cmp j y = 0) (x # xs))"
    using Cons.prems(3)[of y] ys cc_refl[OF cc, of y] by simp
  then have "y \<in> set (x # xs)" by (auto split: if_splits)
  then have xy: "cmp x y \<le> 0" using Cons.prems(1) cc_refl[OF cc, of x] by auto
  have e: "cmp y x = 0" using xy yx cc_ge_flip[OF cc, of y x] by simp
  have "x = y" using Cons.prems(3)[of x] ys e cc_refl[OF cc, of x] by simp
  have "filter (\<lambda>j. cmp j k = 0) xs = filter (\<lambda>j. cmp j k = 0) ys'" for k
    using Cons.prems(3)[of k] ys \<open>x = y\<close> by (simp split: if_splits)
  then have "xs = ys'" using Cons.IH[of ys'] Cons.prems(1,2) ys by simp
  then show ?case using ys \<open>x = y\<close> by simp
qed

lemma array_sort_unique:
  assumes "consistent_comparator cmp" "sorted_wrt (\<lambda>a b. cmp a b \<le> 0) ys"
    and "\<And>k. filter (\<lambda>j. cmp j k = 0) ys = filter (\<lambda>j. cmp j k = 0) xs"
  shows "ys = array_sort cmp xs"
  using sorted_same_segments[OF assms(1) assms(2) array_sort_sorted[OF assms(1), of xs]]
    assms(3) array_sort_stable[OF assms(1)] by simp

lemma array_sort_length: "length (array_sort cmp xs) = length xs"
  using array_sort_mset[of cmp xs] by (metis size_mset)

lemma sort_desc_of_asc:
  assumes cc: "consistent_comparator cmp"
  shows "array_sort (\<lambda>a b. - cmp a b) (array_sort cmp xs) = array_sort (\<lambda>a b. - cmp a b) xs"
proof -
  let ?d = "\<lambda>a b. - cmp a b"
  have d: "consistent_comparator ?d" using cc by (rule cc_negate)
  have "filter (\<lambda>j. ?d j k = 0) (array_sort ?d xs) = filter (\<lambda>j. ?d j k = 0) (array_sort cmp xs)" for k
    using array_sort_stable[OF d, of k xs] array_sort_stable[OF cc, of k xs] by simp
  then show ?thesis
    using array_sort_unique[OF d array_sort_sorted[OF d, of xs], of "array_sort cmp xs"] by simp
qed

lemma sort_desc_rev_asc:
  assumes cc: "consistent_comparator cmp"
  shows "list_all2 (\<lambda>a b. cmp a b = 0) (array_sort (\<lambda>a b. - cmp a b) xs) (rev (array_sort cmp xs))"
proof -
  let ?d = "\<lambda>a b. - cmp a b"
  have d: "consistent_comparator ?d" using cc by (rule cc_negate)
  have s1: "sorted_wrt (\<lambda>a b. ?d a b \<le> 0) (array_sort ?d xs)" using array_sort_sorted[OF d] .
  have "sorted_wrt (\<lambda>a b. cmp b a \<le> 0) (rev (array_sort cmp xs))"
    using array_sort_sorted[OF cc, of xs] by (simp add: sorted_wrt_rev)
  moreover have "(\<lambda>a b. cmp b a \<le> 0) = (\<lambda>a b. ?d a b \<le> 0)"
    using cc_ge_flip[OF cc] by (simp add: fun_eq_iff)
  ultimately have s2: "sorted_wrt (\<lambda>a b. ?d a b \<le> 0) (rev (array_sort cmp xs))" by simp
  have c: "length (filter (\<lambda>j. ?d j k = 0) (array_sort ?d xs)) =
           length (filter (\<lambda>j. ?d j k = 0) (rev (array_sort cmp xs)))" for k
    using array_sort_stable[OF d, of k xs] array_sort_stable[OF cc, of k xs]
    by (simp add: rev_filter[symmetric])
  have "list_all2 (\<lambda>a b. ?d a b = 0) (array_sort ?d xs) (rev (array_sort cmp xs))"
    using sorted_same_classes[OF d s1 s2 c] by (simp add: array_sort_length)
  then show ?thesis by simp
qed

lemma compare_units_refl: "compare_units a a = 0"
  by (induction a) auto

lemma compare_units_flip: "(compare_units a b < 0) = (0 < compare_units b a)"
  by (induction a b rule: compare_units.induct) auto

lemma compare_units_range: "compare_units a b \<in> {- 1, 0, 1}"
  by (induction a b rule: compare_units.induct) auto

lemma compare_units_trans:
  "compare_units a b \<le> 0 \<Longrightarrow> compare_units b c \<le> 0 \<Longrightarrow> compare_units a c \<le> 0"
proof (induction a arbitrary: b c)
  case Nil
  then show ?case by (cases c) auto
next
  case (Cons x a)
  then obtain y b' where b: "b = y # b'" by (cases b) auto
  then obtain z c' where c: "c = z # c'" using Cons.prems by (cases c) auto
  show ?case using Cons.prems Cons.IH[of b' c'] unfolding b c
    by (auto split: if_splits)
qed

lemma compare_units_consistent: "consistent_comparator compare_units"
  unfolding consistent_comparator_def
  using compare_units_refl compare_units_flip compare_units_trans by blast

lemma bump_length: "length (bump k t) \<le> Suc (length t)"
  by (simp add: bump_def split: option.splits)

lemma foldl_bump_length:
  "length (foldl (\<lambda>table j. bump (g j) table) acc js) \<le> length acc + length js"
proof (induction js arbitrary: acc)
  case Nil
  then show ?case by simp
next
  case (Cons j js)
  have "length (foldl (\<lambda>table j. bump (g j) table) (bump (g j) acc) js) \<le> length (bump (g j) acc) + length js"
    by (rule Cons.IH)
  then show ?case using bump_length[of "g j" acc] by simp
qed

lemma count_by_length: "length (count_by field js) \<le> length js"
  using foldl_bump_length[of "\<lambda>j. or_else (field j) ''Unknown''" "[]" js] by (simp add: count_by_def)


section \<open>The frequency tables\<close>

lemma bump_cases:
  "map fst (bump k t) =
     (if k = ''__proto__'' \<or> k \<in> set (map fst t) then map fst t else map fst t @ [k])"
proof -
  have m: "map fst (map (\<lambda>(k', n'). if k' = k then (k', n' + 1) else (k', n')) t) = map fst t"
    by (induction t) auto
  show ?thesis
  proof (cases "map_of t k")
    case None
    then have "k \<notin> set (map fst t)" by (simp add: map_of_eq_None_iff)
    then show ?thesis using None by (simp add: bump_def)
  next
    case (Some n)
    then have "k \<in> set (map fst t)" by (metis map_of_eq_None_iff option.distinct(1) set_map)
    then show ?thesis using Some m by (simp add: bump_def)
  qed
qed

lemma bump_keys:
  "set (map fst (bump k t)) = (if k = ''__proto__'' then set (map fst t) else insert k (set (map fst t)))"
  unfolding bump_cases by auto

lemma bump_distinct:
  assumes "distinct (map fst t)"
  shows "distinct (map fst (bump k t))"
  unfolding bump_cases using assms by auto

lemma foldl_bump_keys:
  "distinct (map fst acc) \<Longrightarrow>
   distinct (map fst (foldl (\<lambda>table j. bump (g j) table) acc js)) \<and>
   set (map fst (foldl (\<lambda>table j. bump (g j) table) acc js)) =
     set (map fst acc) \<union> (g ` set js - {''__proto__''})"
proof (induction js arbitrary: acc)
  case Nil
  then show ?case by simp
next
  case (Cons j js)
  have d: "distinct (map fst (bump (g j) acc))" using Cons.prems by (rule bump_distinct)
  show ?case using Cons.IH[OF d] bump_keys[of "g j" acc] by auto
qed

lemma count_by_keys:
  "length (map fst (count_by field js)) =
     card ((\<lambda>j. or_else (field j) ''Unknown'') ` set js - {''__proto__''})"
proof -
  let ?g = "\<lambda>j. or_else (field j) ''Unknown''"
  have "distinct (map fst (count_by field js)) \<and>
        set (map fst (count_by field js)) = ?g ` set js - {''__proto__''}"
    using foldl_bump_keys[of "[]" ?g js] by (simp add: count_by_def)
  then show ?thesis by (metis distinct_card)
qed


section \<open>Rounding to a double\<close>

lemma pow2_powi: "pow2 e = 2 powi e"
  by (simp add: pow2_def power_int_def field_simps)

lemma pow2_pos: "0 < pow2 e"
  by (simp add: pow2_powi)

lemma pow2_add: "pow2 (a + b) = pow2 a * pow2 b"
  by (simp add: pow2_powi power_int_add)

lemma pow2_nat: "pow2 (int n) = 2 ^ n"
  by (simp add: pow2_def)

lemma pow2_strict_mono: "a < b \<Longrightarrow> pow2 a < pow2 b"
  using power_int_strict_increasing[of a b "2::rat"] by (simp add: pow2_powi)

lemma pow2_mono: "a \<le> b \<Longrightarrow> pow2 a \<le> pow2 b"
  using power_int_increasing[of a b "2::rat"] by (simp add: pow2_powi)

lemma pow2_le_iff: "pow2 a \<le> pow2 b \<longleftrightarrow> a \<le> b"
  by (metis pow2_strict_mono pow2_mono not_less)

lemma pow2_less_iff: "pow2 a < pow2 b \<longleftrightarrow> a < b"
  by (metis pow2_strict_mono pow2_mono not_less)

lemma pow2_cancel:
  assumes "e \<le> 52"
  shows "of_int (2 ^ nat (52 - e)) * pow2 (e - 52) = 1"
proof -
  have a: "pow2 (52 - e) = 2 ^ nat (52 - e)" using assms by (simp add: pow2_def)
  have "pow2 (52 - e) * pow2 (e - 52) = pow2 ((52 - e) + (e - 52))"
    by (rule pow2_add[symmetric])
  also have "\<dots> = 1" by (simp add: pow2_def)
  finally have "2 ^ nat (52 - e) * pow2 (e - 52) = 1" by (simp only: a)
  then show ?thesis by simp
qed

lemma binade_bounds:
  assumes "0 < x"
  shows "pow2 (binade x) \<le> x \<and> x < pow2 (binade x + 1)"
proof -
  obtain p q where pq: "quotient_of x = (p, q)" by (cases "quotient_of x") auto
  have q: "0 < q" using pq by (rule quotient_of_denom_pos)
  have x: "x = of_int p / of_int q" using pq by (rule quotient_of_div)
  have p: "0 < p" using assms q x by (simp add: zero_less_divide_iff)
  let ?d = "bitlen p - bitlen q"
  have bp: "2 ^ nat (bitlen p - 1) \<le> p" "p < 2 ^ nat (bitlen p)" using bitlen_bounds[OF p] by auto
  have bq: "2 ^ nat (bitlen q - 1) \<le> q" "q < 2 ^ nat (bitlen q)" using bitlen_bounds[OF q] by auto
  have lp: "1 \<le> bitlen p" using p by (simp add: bitlen_alt_def)
  have lq: "1 \<le> bitlen q" using q by (simp add: bitlen_alt_def)
  have P1: "pow2 (bitlen p - 1) \<le> of_int p"
  proof -
    have "(of_int (2 ^ nat (bitlen p - 1)) :: rat) \<le> of_int p" using bp(1) by (simp only: of_int_le_iff)
    moreover have "pow2 (bitlen p - 1) = 2 ^ nat (bitlen p - 1)" using lp by (simp add: pow2_def)
    ultimately show ?thesis by simp
  qed
  have P2: "of_int p < pow2 (bitlen p)"
  proof -
    have "(of_int p :: rat) < of_int (2 ^ nat (bitlen p))" using bp(2) by (simp only: of_int_less_iff)
    moreover have "pow2 (bitlen p) = 2 ^ nat (bitlen p)" using lp by (simp add: pow2_def)
    ultimately show ?thesis by simp
  qed
  have Q1: "pow2 (bitlen q - 1) \<le> of_int q"
  proof -
    have "(of_int (2 ^ nat (bitlen q - 1)) :: rat) \<le> of_int q" using bq(1) by (simp only: of_int_le_iff)
    moreover have "pow2 (bitlen q - 1) = 2 ^ nat (bitlen q - 1)" using lq by (simp add: pow2_def)
    ultimately show ?thesis by simp
  qed
  have Q2: "of_int q < pow2 (bitlen q)"
  proof -
    have "(of_int q :: rat) < of_int (2 ^ nat (bitlen q))" using bq(2) by (simp only: of_int_less_iff)
    moreover have "pow2 (bitlen q) = 2 ^ nat (bitlen q)" using lq by (simp add: pow2_def)
    ultimately show ?thesis by simp
  qed
  have qpos: "(0::rat) < of_int q" using q by simp
  have lower: "pow2 (?d - 1) < x"
  proof -
    have "pow2 (?d - 1) * pow2 (bitlen q) = pow2 (bitlen p - 1)"
      by (simp add: pow2_add[symmetric])
    then have "pow2 (?d - 1) * pow2 (bitlen q) \<le> of_int p" using P1 by simp
    moreover have "pow2 (?d - 1) * of_int q < pow2 (?d - 1) * pow2 (bitlen q)"
      using Q2 pow2_pos[of "?d - 1"] by simp
    ultimately have "pow2 (?d - 1) * of_int q < of_int p" by simp
    then show ?thesis using qpos x by (simp add: pos_less_divide_eq)
  qed
  have upper: "x < pow2 (?d + 1)"
  proof -
    have "pow2 (?d + 1) * pow2 (bitlen q - 1) = pow2 (bitlen p)"
      by (simp add: pow2_add[symmetric])
    moreover have "pow2 (?d + 1) * pow2 (bitlen q - 1) \<le> pow2 (?d + 1) * of_int q"
      using Q1 pow2_pos[of "?d + 1"] by simp
    ultimately have "of_int p < pow2 (?d + 1) * of_int q" using P2 by simp
    then show ?thesis using qpos x by (simp add: pos_divide_less_eq)
  qed
  have b: "binade x = (if pow2 ?d \<le> x then ?d else ?d - 1)"
    by (simp add: binade_def pq Let_def)
  show ?thesis
  proof (cases "pow2 ?d \<le> x")
    case True
    then show ?thesis using b upper by simp
  next
    case False
    then show ?thesis using b lower by simp
  qed
qed

lemma round_half_even_le:
  assumes "q \<le> of_int k"
  shows "round_half_even q \<le> k"
proof -
  have f: "\<lfloor>q\<rfloor> \<le> k" using assms by (simp add: floor_le_iff)
  show ?thesis
  proof (cases "q - of_int \<lfloor>q\<rfloor> < 1 / 2")
    case True
    then show ?thesis using f by (simp add: round_half_even_def Let_def)
  next
    case False
    then have "of_int \<lfloor>q\<rfloor> < q" by simp
    then have "of_int \<lfloor>q\<rfloor> < (of_int k :: rat)" using assms by simp
    then have "\<lfloor>q\<rfloor> < k" by (simp only: of_int_less_iff)
    then show ?thesis by (simp add: round_half_even_def Let_def)
  qed
qed

lemma round_half_even_ge:
  assumes "of_int k \<le> q"
  shows "k \<le> round_half_even q"
proof -
  have "k \<le> \<lfloor>q\<rfloor>" using assms by (simp add: le_floor_iff)
  then show ?thesis by (simp add: round_half_even_def Let_def)
qed

lemma to_double_pos:
  assumes "0 < x"
  shows "to_double x = of_int (round_half_even (x / pow2 (binade x - 52))) * pow2 (binade x - 52)"
  using assms by (simp add: to_double_def Let_def)

lemma to_double_nonneg:
  assumes "0 \<le> x"
  shows "0 \<le> to_double x"
proof (cases "x = 0")
  case True
  then show ?thesis by (simp add: to_double_def)
next
  case False
  then have x: "0 < x" using assms by simp
  have "(of_int 0 :: rat) \<le> x / pow2 (binade x - 52)" using x pow2_pos[of "binade x - 52"] by simp
  then have "0 \<le> round_half_even (x / pow2 (binade x - 52))" by (rule round_half_even_ge)
  then show ?thesis using pow2_pos[of "binade x - 52"] by (simp add: to_double_pos[OF x])
qed

lemma to_double_le:
  assumes "0 < x" and "x \<le> of_int k * pow2 (binade x - 52)"
  shows "to_double x \<le> of_int k * pow2 (binade x - 52)"
proof -
  let ?u = "pow2 (binade x - 52)"
  have u: "0 < ?u" by (rule pow2_pos)
  have "x / ?u \<le> of_int k" using assms(2) u by (simp add: pos_divide_le_eq)
  then have "round_half_even (x / ?u) \<le> k" by (rule round_half_even_le)
  then have "(of_int (round_half_even (x / ?u)) :: rat) \<le> of_int k" by (simp only: of_int_le_iff)
  then show ?thesis using u by (simp add: to_double_pos[OF assms(1)])
qed

lemma to_double_le_one:
  assumes "0 \<le> x" and "x \<le> 1"
  shows "to_double x \<le> 1"
proof (cases "x = 0")
  case True
  then show ?thesis by (simp add: to_double_def)
next
  case False
  then have x: "0 < x" using assms by simp
  have "pow2 (binade x) \<le> pow2 0" using binade_bounds[OF x] assms(2) by (simp add: pow2_def)
  then have e: "binade x \<le> 0" by (simp only: pow2_le_iff)
  have one: "of_int (2 ^ nat (52 - binade x)) * pow2 (binade x - 52) = 1"
    using e by (intro pow2_cancel) simp
  show ?thesis using to_double_le[OF x, of "2 ^ nat (52 - binade x)"] assms(2) one by simp
qed

lemma to_double_le_100:
  assumes "0 \<le> x" and "x \<le> 100"
  shows "to_double x \<le> 100"
proof (cases "x = 0")
  case True
  then show ?thesis by (simp add: to_double_def)
next
  case False
  then have x: "0 < x" using assms by simp
  have "pow2 (binade x) < pow2 7" using binade_bounds[OF x] assms(2) by (simp add: pow2_def)
  then have e: "binade x < 7" by (simp only: pow2_less_iff)
  have "of_int (2 ^ nat (52 - binade x)) * pow2 (binade x - 52) = 1"
    using e by (intro pow2_cancel) simp
  then have h: "of_int (100 * 2 ^ nat (52 - binade x)) * pow2 (binade x - 52) = 100"
    by simp
  show ?thesis using to_double_le[OF x, of "100 * 2 ^ nat (52 - binade x)"] assms(2) h by simp
qed

lemma to_double_exact: "to_double 0 = 0" "to_double 1 = 1" "to_double 100 = 100"
  by code_simp+

lemma Math_round_range:
  assumes "0 \<le> x" and "x \<le> 100"
  shows "0 \<le> Math_round x \<and> Math_round x \<le> 100"
proof -
  have "x + 1 / 2 < of_int 101" using assms(2) by simp
  then have "\<lfloor>x + 1 / 2\<rfloor> < 101" by (simp only: floor_less_iff)
  moreover have "of_int 0 \<le> x + 1 / 2" using assms(1) by simp
  then have "0 \<le> \<lfloor>x + 1 / 2\<rfloor>" by (simp only: le_floor_iff)
  ultimately show ?thesis by (simp add: Math_round_def)
qed

lemma percentage_range:
  assumes "c \<le> n" and "0 < n"
  shows "0 \<le> Math_round (double_mul (double_div (of_nat c) (of_nat n)) 100) \<and>
         Math_round (double_mul (double_div (of_nat c) (of_nat n)) 100) \<le> 100"
proof -
  let ?q = "double_div (of_nat c) (of_nat n)"
  have r: "(0::rat) \<le> of_nat c / of_nat n" "(of_nat c :: rat) / of_nat n \<le> 1"
    using assms by simp_all
  have q: "0 \<le> ?q" "?q \<le> 1"
    using to_double_nonneg[OF r(1)] to_double_le_one[OF r] by (simp_all add: double_div_def)
  then have "0 \<le> ?q * 100" "?q * 100 \<le> 100" by simp_all
  then have "0 \<le> double_mul ?q 100" "double_mul ?q 100 \<le> 100"
    using to_double_nonneg[of "?q * 100"] to_double_le_100[of "?q * 100"]
    by (simp_all add: double_mul_def)
  then show ?thesis by (rule Math_round_range)
qed

lemma Math_round_int: "Math_round (of_int k) = k"
proof -
  have "\<lfloor>(of_int k :: rat) + 1 / 2\<rfloor> = k" by (rule floor_unique) simp_all
  then show ?thesis by (simp add: Math_round_def)
qed

lemma percentage_extremes:
  assumes "0 < n"
  shows "Math_round (double_mul (double_div (of_nat n) (of_nat n)) 100) = 100"
    and "Math_round (double_mul (double_div 0 (of_nat n)) 100) = 0"
proof -
  have "double_div (of_nat n) (of_nat n) = 1"
    using assms by (simp add: double_div_def to_double_exact)
  then have "double_mul (double_div (of_nat n) (of_nat n)) 100 = of_int 100"
    by (simp add: double_mul_def to_double_exact)
  then show "Math_round (double_mul (double_div (of_nat n) (of_nat n)) 100) = 100"
    by (simp only: Math_round_int)
  have "double_mul (double_div 0 (of_nat n)) 100 = of_int 0"
    by (simp add: double_div_def double_mul_def to_double_exact)
  then show "Math_round (double_mul (double_div 0 (of_nat n)) 100) = 0"
    by (simp only: Math_round_int)
qed

lemma validLinksPercentage_bounds:
  assumes "js \<noteq> []"
  shows "\<exists>s. analytics (Some js) = Some s \<and> 0 \<le> validLinksPercentage s \<and>
             validLinksPercentage s \<le> 100 \<and>
             (list_all valid_link js \<longrightarrow> validLinksPercentage s = 100) \<and>
             (list_all (\<lambda>j. \<not> valid_link j) js \<longrightarrow> validLinksPercentage s = 0)"
proof -
  let ?c = "length (filter valid_link js)"
  have n: "0 < length js" using assms by simp
  have c: "?c \<le> length js" by simp
  have a: "list_all valid_link js \<Longrightarrow> ?c = length js"
    by (simp add: list_all_iff)
  have z: "list_all (\<lambda>j. \<not> valid_link j) js \<Longrightarrow> ?c = 0"
    by (simp add: list_all_iff)
  show ?thesis
    using percentage_range[OF c n] percentage_extremes[OF n] a z assms
    by (auto simp: analytics_def Let_def)
qed

lemma round_half_even_error: "\<bar>of_int (round_half_even q) - q\<bar> \<le> 1 / 2"
proof -
  let ?f = "\<lfloor>q\<rfloor>"
  have f: "of_int ?f \<le> q" "q < of_int ?f + 1" by linarith+
  show ?thesis
  proof (cases "q - of_int ?f < 1 / 2")
    case True
    then show ?thesis using f by (simp add: round_half_even_def Let_def)
  next
    case False
    note nlt = this
    show ?thesis
    proof (cases "1 / 2 < q - of_int ?f")
      case True
      then show ?thesis using f nlt by (simp add: round_half_even_def Let_def)
    next
      case False
      then have "q - of_int ?f = 1 / 2" using nlt by simp
      then show ?thesis by (simp add: round_half_even_def Let_def)
    qed
  qed
qed

lemma to_double_error:
  assumes "0 < x"
  shows "\<bar>to_double x - x\<bar> \<le> x / 2 ^ 53"
proof -
  let ?u = "pow2 (binade x - 52)"
  have u: "0 < ?u" by (rule pow2_pos)
  have "to_double x - x = (of_int (round_half_even (x / ?u)) - x / ?u) * ?u"
    using u by (simp add: to_double_pos[OF assms] algebra_simps)
  then have "\<bar>to_double x - x\<bar> = \<bar>of_int (round_half_even (x / ?u)) - x / ?u\<bar> * ?u"
    using u by (simp add: abs_mult)
  also have "\<dots> \<le> 1 / 2 * ?u"
    using round_half_even_error[of "x / ?u"] u by (intro mult_right_mono) simp_all
  also have "\<dots> = pow2 (binade x) / 2 ^ 53"
  proof -
    have "pow2 (binade x - 52) = pow2 (binade x) * pow2 (- 52)"
      using pow2_add[of "binade x" "- 52"] by simp
    moreover have "pow2 (- 52) = 1 / 2 ^ 52" by (simp add: pow2_def)
    ultimately show ?thesis by simp
  qed
  also have "\<dots> \<le> x / 2 ^ 53"
    using binade_bounds[OF assms] by (simp add: divide_right_mono)
  finally show ?thesis .
qed

lemma percentage_error:
  assumes "c \<le> n" and "0 < n"
  shows "\<bar>double_mul (double_div (of_nat c) (of_nat n)) 100 - 100 * of_nat c / of_nat n\<bar>
           \<le> 201 / 2 ^ 53"
proof (cases "c = 0")
  case True
  then show ?thesis by (simp add: double_div_def double_mul_def to_double_exact)
next
  case False
  let ?r = "(of_nat c :: rat) / of_nat n"
  let ?q = "to_double ?r"
  let ?v = "to_double (?q * 100)"
  have r: "0 < ?r" "?r \<le> 1" using False assms by simp_all
  have e1: "\<bar>?q - ?r\<bar> \<le> ?r / 2 ^ 53" using r(1) by (rule to_double_error)
  have q1: "?q \<le> 1" using r by (intro to_double_le_one) simp_all
  have q0: "0 < ?q"
  proof -
    have "?r - ?r / 2 ^ 53 \<le> ?q" using e1 by (simp add: abs_le_iff)
    moreover have "0 < ?r - ?r / 2 ^ 53" using r(1) by (simp add: field_simps)
    ultimately show ?thesis by simp
  qed
  then have "0 < ?q * 100" by simp
  then have e2: "\<bar>?v - ?q * 100\<bar> \<le> (?q * 100) / 2 ^ 53" by (rule to_double_error)
  have "?v - 100 * ?r = (?v - ?q * 100) + 100 * (?q - ?r)" by simp
  then have "\<bar>?v - 100 * ?r\<bar> \<le> \<bar>?v - ?q * 100\<bar> + \<bar>100 * (?q - ?r)\<bar>"
    by (simp only: abs_triangle_ineq)
  also have "\<dots> = \<bar>?v - ?q * 100\<bar> + 100 * \<bar>?q - ?r\<bar>" by (subst abs_mult) simp
  also have "\<dots> \<le> (?q * 100) / 2 ^ 53 + 100 * (?r / 2 ^ 53)" using e1 e2 by simp
  also have "\<dots> \<le> (1 * 100) / 2 ^ 53 + 100 * (1 / 2 ^ 53)"
    using q1 r(2) by (intro add_mono mult_left_mono divide_right_mono mult_right_mono) simp_all
  also have "\<dots> \<le> 201 / 2 ^ 53" by simp
  finally show ?thesis by (simp add: double_div_def double_mul_def)
qed

lemma percentage_nearly_exact:
  assumes "c \<le> n" and "0 < n" and "n < 2 ^ 32"
  shows "Math_round (double_mul (double_div (of_nat c) (of_nat n)) 100) =
           Math_round (100 * of_nat c / of_nat n)
         \<or> (Math_round (double_mul (double_div (of_nat c) (of_nat n)) 100) =
               Math_round (100 * of_nat c / of_nat n) - 1
            \<and> of_int (Math_round (100 * of_nat c / of_nat n)) = 100 * of_nat c / of_nat n + (1 / 2 :: rat))"
proof -
  let ?E = "100 * (of_nat c :: rat) / of_nat n"
  let ?v = "double_mul (double_div (of_nat c) (of_nat n)) 100"
  let ?R = "\<lfloor>?E + 1 / 2\<rfloor>"
  let ?d = "(201 :: rat) / 2 ^ 53"
  have np: "(0 :: rat) < of_nat n" using assms(2) by simp
  have err: "\<bar>?v - ?E\<bar> \<le> ?d" using assms(1,2) by (rule percentage_error)
  have nb: "(of_nat n :: rat) < 2 ^ 32"
  proof -
    have "(of_nat n :: rat) < of_nat (2 ^ 32)" using assms(3) by (simp only: of_nat_less_iff)
    then show ?thesis by simp
  qed
  have gap: "?d < 1 / (2 * of_nat n)"
  proof -
    have "?d * (2 * of_nat n) < ?d * (2 * 2 ^ 32)" using nb by simp
    also have "\<dots> < 1" by simp
    finally show ?thesis using np by (simp add: pos_less_divide_eq)
  qed
  have E: "?E + 1 / 2 = of_int (200 * int c + int n) / (2 * of_nat n)"
    using np by (simp add: field_simps)
  have R: "of_int ?R \<le> ?E + 1 / 2" "?E + 1 / 2 < of_int ?R + 1" by linarith+
  have up: "1 / (2 * of_nat n) \<le> of_int ?R + 1 - (?E + 1 / 2)"
  proof -
    have "of_int (200 * int c + int n) < (of_int ?R + 1) * (2 * (of_nat n :: rat))"
      using R(2) np unfolding E by (simp add: pos_divide_less_eq)
    then have "(of_int (200 * int c + int n) :: rat) < of_int ((?R + 1) * (2 * int n))"
      by simp
    then have "200 * int c + int n < (?R + 1) * (2 * int n)" by (simp only: of_int_less_iff)
    then have "200 * int c + int n + 1 \<le> (?R + 1) * (2 * int n)" by simp
    then have "(of_int (200 * int c + int n + 1) :: rat) \<le> of_int ((?R + 1) * (2 * int n))"
      by (simp only: of_int_le_iff)
    then have "of_int (200 * int c + int n) + 1 \<le> (of_int ?R + 1) * (2 * (of_nat n :: rat))"
      by simp
    then have "(of_int (200 * int c + int n) + 1) / (2 * of_nat n) \<le> (of_int ?R + 1 :: rat)"
      using np by (simp add: pos_divide_le_eq)
    then show ?thesis unfolding E by (simp add: add_divide_distrib)
  qed
  have below: "?v + 1 / 2 < of_int ?R + 1"
  proof -
    have "?v - ?E \<le> ?d" using err abs_ge_self[of "?v - ?E"] by (rule order_trans[rotated])
    then show ?thesis using up gap by linarith
  qed
  have above: "of_int ?R - 1 \<le> ?v + 1 / 2"
  proof -
    have "- (?v - ?E) \<le> ?d" using err abs_ge_minus_self[of "?v - ?E"] by (rule order_trans[rotated])
    moreover have "?d < 1" by simp
    ultimately show ?thesis using R(1) by linarith
  qed
  have lo: "?R - 1 \<le> \<lfloor>?v + 1 / 2\<rfloor>"
  proof -
    have "of_int (?R - 1) \<le> ?v + 1 / 2" using above by simp
    then show ?thesis by (simp only: le_floor_iff)
  qed
  have hi: "\<lfloor>?v + 1 / 2\<rfloor> < ?R + 1"
  proof -
    have "?v + 1 / 2 < of_int (?R + 1)" using below by simp
    then show ?thesis by (simp only: floor_less_iff)
  qed
  show ?thesis
  proof (cases "of_int ?R = ?E + 1 / 2")
    case True
    then show ?thesis using lo hi by (auto simp: Math_round_def)
  next
    case False
    then have "of_int ?R < ?E + 1 / 2" using R(1) by (rule order.not_eq_order_implies_strict)
    then have "of_int (?R * (2 * int n)) < (of_int (200 * int c + int n) :: rat)"
      using np unfolding E by (simp add: pos_less_divide_eq)
    then have "?R * (2 * int n) < 200 * int c + int n" by (simp only: of_int_less_iff)
    then have "?R * (2 * int n) + 1 \<le> 200 * int c + int n" by simp
    then have "(of_int (?R * (2 * int n) + 1) :: rat) \<le> of_int (200 * int c + int n)"
      by (simp only: of_int_le_iff)
    then have "of_int ?R * (2 * of_nat n) + 1 \<le> (of_int (200 * int c + int n) :: rat)" by simp
    then have "(of_int ?R * (2 * of_nat n) + 1) / (2 * of_nat n) \<le> ?E + 1 / 2"
      using np unfolding E by (simp add: divide_right_mono)
    then have dn: "of_int ?R + 1 / (2 * of_nat n) \<le> ?E + 1 / 2"
      using np by (simp add: add_divide_distrib)
    have "- (?v - ?E) \<le> ?d" using err abs_ge_minus_self[of "?v - ?E"] by (rule order_trans[rotated])
    then have "of_int ?R \<le> ?v + 1 / 2" using dn gap by linarith
    then have "?R \<le> \<lfloor>?v + 1 / 2\<rfloor>" by (simp only: le_floor_iff)
    then show ?thesis using hi by (simp add: Math_round_def)
  qed
qed

lemma validLinksPercentage_nearly_exact:
  assumes "js \<noteq> []" and "length js < 2 ^ 32"
  shows "\<exists>s. analytics (Some js) = Some s \<and>
           (validLinksPercentage s =
              Math_round (100 * of_nat (length (filter valid_link js)) / of_nat (length js))
            \<or> (validLinksPercentage s =
                  Math_round (100 * of_nat (length (filter valid_link js)) / of_nat (length js)) - 1
                \<and> of_int (Math_round (100 * of_nat (length (filter valid_link js)) / of_nat (length js))) =
                    100 * of_nat (length (filter valid_link js)) / of_nat (length js) + (1 / 2 :: rat)))"
proof -
  have n: "0 < length js" using assms(1) by simp
  have c: "length (filter valid_link js) \<le> length js" by simp
  show ?thesis
    using percentage_nearly_exact[OF c n assms(2)] assms(1)
    by (simp add: analytics_def Let_def)
qed

text \<open>Two familiar doubles: 0.1, and the sum of 0.1 and 0.2.\<close>

lemma to_double_known:
  "to_double (1 / 10) = 3602879701896397 / 36028797018963968"
  "to_double (to_double (1 / 10) + to_double (2 / 10)) = 1351079888211149 / 4503599627370496"
  by code_simp+


section \<open>The request client\<close>

text \<open>
  Claim C7, as the code has it. A page count outside 1..10 is rejected before any request
  is issued, and the error carries the message \<^verbatim>\<open>Pages must be between 1 and 10\<close>, provided
  the job title is not blank: the title is checked first, and a blank title is rejected with
  the title's message whatever the page count is.
\<close>

theorem scrapeJobs_rejects_pages:
  assumes "trim jobTitle \<noteq> []" and "p < 1 \<or> 10 < p"
  shows "scrapeJobs be jobTitle loc (Some p) sent =
           (Inl (JsError ''Pages must be between 1 and 10'' None None
                   (Some (new_Error ''Pages must be between 1 and 10''))), sent)"
proof -
  have "jobTitle \<noteq> []" using assms(1) by (auto simp: trim_def)
  then show ?thesis using assms
    by (auto simp: scrapeJobs_def scrape_try_def scrape_error_message_def)
qed

theorem scrapeJobs_rejects_pages_witness:
  "trim ''Nurse'' \<noteq> [] \<and> ((15::int) < 1 \<or> 10 < (15::int)) \<and>
   scrapeJobs serving ''Nurse'' (Some ''Remote'') (Some 15) [] =
     (Inl (JsError ''Pages must be between 1 and 10'' None None
             (Some (new_Error ''Pages must be between 1 and 10''))), [])"
proof -
  have t: "trim ''Nurse'' \<noteq> []" by code_simp
  have p: "(15::int) < 1 \<or> 10 < (15::int)" by simp
  show ?thesis
    using t p scrapeJobs_rejects_pages[OF t p, of serving "Some ''Remote''" "[]"] by simp
qed

text \<open>
  With an empty job title and 15 pages the request is rejected too, but the message is the
  one about the job title: it does not mention the bound.
\<close>

theorem scrapeJobs_pages_blank_title_counterexample:
  "scrapeJobs serving [] (Some ''Remote'') (Some 15) [] =
     (Inl (JsError ''Job title is required and must be a non-empty string'' None None
             (Some (new_Error ''Job title is required and must be a non-empty string''))), [])
   \<and> \<not> str_includes ''Job title is required and must be a non-empty string'' ''10''"
proof -
  have "scrapeJobs serving [] (Some ''Remote'') (Some 15) [] =
     (Inl (JsError ''Job title is required and must be a non-empty string'' None None
             (Some (new_Error ''Job title is required and must be a non-empty string''))), [])"
    by (simp add: scrapeJobs_def scrape_try_def scrape_error_message_def)
  moreover have "\<not> str_includes ''Job title is required and must be a non-empty string'' ''10''"
    by code_simp
  ultimately show ?thesis by simp
qed

text \<open>
  Claim C5. A format other than \<^verbatim>\<open>csv\<close>, \<^verbatim>\<open>excel\<close> and \<^verbatim>\<open>json\<close> is rejected without a
  request: whatever the backend would answer, \<^verbatim>\<open>downloadFile\<close> throws the error whose cause
  is the invalid-format error and leaves the request log as it was, and so does the
  handler of the download buttons.
\<close>

theorem downloadFile_rejects_unsupported_format:
  assumes "format \<notin> {''csv'', ''excel'', ''json''}"
  shows "downloadFile be format sent =
           (Inl (JsError ''Download failed'' None None
                   (Some (new_Error (''Invalid format: '' @ format)))), sent)
         \<and> requests (handleDownload env hasData format s) = requests s"
  using assms
  by (auto simp: downloadFile_def download_try_def validFormats_def handleDownload_def
      download_body_def Let_def split: option.splits)

theorem downloadFile_rejects_unsupported_format_witness:
  "''pdf'' \<notin> {''csv'', ''excel'', ''json''} \<and>
   downloadFile serving ''pdf'' [] =
     (Inl (JsError ''Download failed'' None None (Some (new_Error ''Invalid format: pdf''))), [])
   \<and> requests (handleDownload (sample_env serving) True ''pdf'' initial_state) = []"
proof -
  have h: "''pdf'' \<notin> {''csv'', ''excel'', ''json''}" by simp
  show ?thesis
    using h downloadFile_rejects_unsupported_format[OF h, of serving "[]" "sample_env serving" True initial_state]
    by (simp add: initial_state_def)
qed

text \<open>
  Claim C9. Whenever \<^verbatim>\<open>downloadFile\<close> fails, the error it throws has the message
  \<^verbatim>\<open>Download failed\<close>; what went wrong is its \<^verbatim>\<open>originalError\<close>: the error of the backend
  for a valid format, the invalid-format error otherwise.
\<close>

theorem downloadFile_failure_message:
  assumes "downloadFile be format sent = (Inl e, sent')"
  shows "message e = ''Download failed'' \<and>
         (\<exists>cause. originalError e = Some cause \<and>
            (if format \<in> set validFormats then get_download be format = Inl cause
             else cause = new_Error (''Invalid format: '' @ format)))"
  using assms
  by (auto simp: downloadFile_def download_try_def split: sum.splits if_splits)

theorem downloadFile_failure_message_witness:
  "downloadFile offline ''csv'' [] =
     (Inl (JsError ''Download failed'' None None
             (Some (JsError ''timeout of 300000ms exceeded'' (Some ''ECONNABORTED'') None None))),
      [Get_download ''csv''])
   \<and> message (JsError ''Download failed'' None None
             (Some (JsError ''timeout of 300000ms exceeded'' (Some ''ECONNABORTED'') None None)))
       = ''Download failed''"
proof -
  have h: "downloadFile offline ''csv'' [] =
     (Inl (JsError ''Download failed'' None None
             (Some (JsError ''timeout of 300000ms exceeded'' (Some ''ECONNABORTED'') None None))),
      [Get_download ''csv''])"
    by (simp add: downloadFile_def download_try_def validFormats_def offline_def)
  show ?thesis using h downloadFile_failure_message[OF h] by simp
qed

section \<open>The export dispatcher\<close>

lemma download_body_downloading:
  "downloading (snd (download_body env format s)) = downloading s"
  by (simp add: download_body_def Let_def split: option.splits sum.splits prod.splits)

text \<open>
  Claim C6. A run of \<^verbatim>\<open>handleDownload\<close> that gets past the check for data leaves the busy
  flag of its format at \<^verbatim>\<open>false\<close> and every other flag as it was, whatever the import, the
  backend and the DOM do; a run without data returns before the flag is set and changes
  nothing.
\<close>

theorem handleDownload_clears_busy:
  "handleDownload env False format s = s \<and>
   downloading (handleDownload env True format s) = (downloading s)(format \<mapsto> False)"
proof -
  let ?s1 = "s\<lparr>downloading := (downloading s)(format \<mapsto> True)\<rparr>"
  obtain thrown s2 where b: "download_body env format ?s1 = (thrown, s2)"
    by (cases "download_body env format ?s1") auto
  have "downloading s2 = (downloading s)(format \<mapsto> True)"
    using download_body_downloading[of env format ?s1] b by simp
  then have "downloading (handleDownload env True format s) = (downloading s)(format \<mapsto> False)"
    using b by (cases thrown) (simp_all add: handleDownload_def Let_def)
  then show ?thesis by (simp add: handleDownload_def)
qed

theorem handleDownload_clears_busy_witness:
  "downloading (handleDownload (sample_env offline) True ''csv'' initial_state) ''csv'' = Some False
   \<and> downloading (handleDownload (sample_env serving) True ''pdf'' initial_state) ''pdf'' = Some False
   \<and> downloading (handleDownload (sample_env serving) True ''json'' initial_state) ''json'' = Some False"
  using handleDownload_clears_busy[of "sample_env offline" "''csv''" initial_state]
    handleDownload_clears_busy[of "sample_env serving" "''pdf''" initial_state]
    handleDownload_clears_busy[of "sample_env serving" "''json''" initial_state]
  by simp

text \<open>
  Claim C8. After a successful export of \<^verbatim>\<open>csv\<close>, \<^verbatim>\<open>excel\<close> or \<^verbatim>\<open>json\<close> the file handed to
  the browser, which is also the one recorded as the last download, is named
  \<^verbatim>\<open>indeed-jobs-\<close>, the timestamp, a period, and \<^verbatim>\<open>csv\<close>, \<^verbatim>\<open>xlsx\<close> or \<^verbatim>\<open>json\<close>. The
  timestamp has no colon and no period, at any reading of the clock; for a year of four
  digits it is the date and the time of day to the second, with hyphens for the colons.
\<close>

theorem export_filename:
  assumes "format \<in> {''csv'', ''excel'', ''json''}"
    and "import_error env = None" and "get_download (server env) format = Inr blob"
    and "dom_error env = None"
  shows "lastDownload (downloadStats (handleDownload env True format s)) =
           Some \<lparr> d_format = format,
                  d_filename = ''indeed-jobs-'' @ file_timestamp (now_filename env) @ ''.'' @
                    (if format = ''csv'' then ''csv'' else if format = ''excel'' then ''xlsx'' else ''json''),
                  d_timestamp = toISOString (now_info env), d_size = blob \<rparr>
         \<and> saved (handleDownload env True format s) =
             saved s @ [''indeed-jobs-'' @ file_timestamp (now_filename env) @ ''.'' @
                    (if format = ''csv'' then ''csv'' else if format = ''excel'' then ''xlsx'' else ''json'')]
         \<and> CHR '':'' \<notin> set (file_timestamp (now_filename env))
         \<and> CHR ''.'' \<notin> set (file_timestamp (now_filename env))
         \<and> (0 \<le> year (now_filename env) \<and> year (now_filename env) \<le> 9999 \<and>
              month (now_filename env) < 100 \<and> day (now_filename env) < 100 \<and>
              hours (now_filename env) < 100 \<and> minutes (now_filename env) < 100 \<and>
              seconds (now_filename env) < 100 \<longrightarrow>
            file_timestamp (now_filename env) =
              pad 4 (nat (year (now_filename env))) @ ''-'' @ pad 2 (month (now_filename env)) @ ''-'' @
              pad 2 (day (now_filename env)) @ ''T'' @ pad 2 (hours (now_filename env)) @ ''-'' @
              pad 2 (minutes (now_filename env)) @ ''-'' @ pad 2 (seconds (now_filename env)))"
proof -
  have v: "format \<in> set validFormats" using assms(1) by (auto simp: validFormats_def)
  have e: "extensions format =
             Some (if format = ''csv'' then ''csv'' else if format = ''excel'' then ''xlsx'' else ''json'')"
    using assms(1) by (auto simp: extensions_def)
  have b: "download_body env format s' =
             (None,
              s'\<lparr> requests := requests s' @ [Get_download format],
                  saved := saved s' @ [make_filename (now_filename env) format],
                  downloadStats :=
                    \<lparr> totalDownloads = totalDownloads (downloadStats s') + 1,
                      lastDownload = Some \<lparr> d_format = format,
                                            d_filename = make_filename (now_filename env) format,
                                            d_timestamp = toISOString (now_info env), d_size = blob \<rparr>,
                      downloadHistory = slice_last10 (downloadHistory (downloadStats s') @
                          [\<lparr> d_format = format,
                             d_filename = make_filename (now_filename env) format,
                             d_timestamp = toISOString (now_info env), d_size = blob \<rparr>]) \<rparr> \<rparr>)" for s'
    using assms(2,3,4) v
    by (simp add: download_body_def downloadFile_def download_try_def Let_def)
  have "lastDownload (downloadStats (handleDownload env True format s)) =
           Some \<lparr> d_format = format, d_filename = make_filename (now_filename env) format,
                  d_timestamp = toISOString (now_info env), d_size = blob \<rparr>"
    by (simp add: handleDownload_def Let_def b)
  moreover have "saved (handleDownload env True format s) =
                   saved s @ [make_filename (now_filename env) format]"
    by (simp add: handleDownload_def Let_def b)
  ultimately show ?thesis
    using e file_timestamp_safe[of "now_filename env"] file_timestamp_render[of "now_filename env"]
    by (simp add: make_filename_def)
qed

theorem export_filename_witness:
  "''excel'' \<in> {''csv'', ''excel'', ''json''} \<and> import_error (sample_env serving) = None \<and>
   get_download (server (sample_env serving)) ''excel'' = Inr 2048 \<and>
   dom_error (sample_env serving) = None \<and>
   saved (handleDownload (sample_env serving) True ''excel'' initial_state) =
     [''indeed-jobs-2024-01-15T10-30-45.xlsx'']"
proof -
  have h1: "''excel'' \<in> {''csv'', ''excel'', ''json''}" by simp
  have h2: "import_error (sample_env serving) = None" by (simp add: sample_env_def)
  have h3: "get_download (server (sample_env serving)) ''excel'' = Inr 2048"
    by (simp add: sample_env_def serving_def)
  have h4: "dom_error (sample_env serving) = None" by (simp add: sample_env_def)
  have t: "file_timestamp (now_filename (sample_env serving)) = ''2024-01-15T10-30-45''"
    by code_simp
  show ?thesis
    using h1 h2 h3 h4 export_filename[OF h1 h2 h3 h4, of initial_state]
    by (simp add: t initial_state_def)
qed


section \<open>The job table\<close>

lemma processedJobs_unsorted:
  "processedJobs collate (Some js) filterText None dir =
     (if trim filterText \<noteq> [] then filter (passes filterText) js else js)"
  by (simp add: processedJobs_def)

lemma processedJobs_sorted:
  "processedJobs collate (Some js) filterText (Some f) dir =
     array_sort (compare_jobs collate f dir) (processedJobs collate (Some js) filterText None dir)"
  by (simp add: processedJobs_def)

lemma processedJobs_mset:
  "mset (processedJobs collate (Some js) filterText sortField dir) =
     mset (processedJobs collate (Some js) filterText None dir)"
  by (cases sortField) (simp_all add: processedJobs_sorted array_sort_mset)

lemma filter_passes:
  "filter (passes filterText) js =
     filter (\<lambda>j. \<exists>s p q. (Title j = Some s \<or> Company j = Some s \<or> Location j = Some s) \<and>
                          toLowerCase s = p @ toLowerCase filterText @ q) js"
  by (rule filter_cong) (simp_all add: passes_iff)

text \<open>
  Claim C1, as the code has it. When the filter text has a character that is not white
  space, the view without a sort is the job list restricted, in its order, to the records of
  which the title, the company or the location, in lower case, contains the filter text in
  lower case, an absent field containing nothing. When the filter text is empty or all
  white space the view is the whole list. A sort only reorders the view. On the three
  sample records the filter \<^verbatim>\<open>acme\<close> keeps the first two.
\<close>

theorem processedJobs_filter:
  "(trim filterText \<noteq> [] \<longrightarrow>
      processedJobs collate (Some js) filterText None dir =
        filter (\<lambda>j. \<exists>s p q. (Title j = Some s \<or> Company j = Some s \<or> Location j = Some s) \<and>
                             toLowerCase s = p @ toLowerCase filterText @ q) js)
   \<and> (trim filterText = [] \<longrightarrow> processedJobs collate (Some js) filterText None dir = js)
   \<and> mset (processedJobs collate (Some js) filterText sortField dir) =
       mset (processedJobs collate (Some js) filterText None dir)
   \<and> processedJobs collate (Some sample_jobs) ''acme'' None dir = [acme_engineer, acme_untitled]"
proof -
  have "processedJobs collate (Some sample_jobs) ''acme'' None dir = [acme_engineer, acme_untitled]"
    unfolding processedJobs_unsorted by code_simp
  then show ?thesis
    using filter_passes[of filterText js] processedJobs_mset[of collate js filterText sortField dir]
    by (simp add: processedJobs_unsorted)
qed

theorem processedJobs_filter_witness:
  "trim ''acme'' \<noteq> [] \<and> trim [] = [] \<and>
   processedJobs compare_units (Some sample_jobs) ''acme'' None Asc = [acme_engineer, acme_untitled] \<and>
   processedJobs compare_units (Some sample_jobs) [] None Asc = sample_jobs"
proof -
  have t: "trim ''acme'' \<noteq> []" by code_simp
  have e: "trim [] = []" by (simp add: trim_def)
  show ?thesis
    using t e processedJobs_filter[of "''acme''" compare_units sample_jobs Asc None]
      processedJobs_filter[of "[]" compare_units sample_jobs Asc None]
    by simp
qed

text \<open>
  The filter text of one space keeps a record none of whose fields contains a space.
\<close>

theorem processedJobs_filter_blank_counterexample:
  "processedJobs compare_units (Some [acme_engineer]) '' '' None Asc = [acme_engineer]
   \<and> Title acme_engineer = Some ''Engineer'' \<and> Company acme_engineer = Some ''Acme''
   \<and> Location acme_engineer = None
   \<and> \<not> str_includes (toLowerCase ''Engineer'') (toLowerCase '' '')
   \<and> \<not> str_includes (toLowerCase ''Acme'') (toLowerCase '' '')"
proof -
  have "processedJobs compare_units (Some [acme_engineer]) '' '' None Asc = [acme_engineer]"
    by code_simp
  moreover have "\<not> str_includes (toLowerCase ''Engineer'') (toLowerCase '' '')" by code_simp
  moreover have "\<not> str_includes (toLowerCase ''Acme'') (toLowerCase '' '')" by code_simp
  ultimately show ?thesis by (simp add: acme_engineer_def)
qed

text \<open>
  Claim C10. A filter text of white space only (the empty text included) passes every
  record. A filter text with a character that is not white space is matched as it is, its
  leading and trailing white space included, in lower case, against the title, the company
  and the location in lower case.
\<close>

theorem filter_blank_or_untrimmed:
  "(list_all is_space filterText \<longrightarrow>
      processedJobs collate (Some js) filterText None dir = js \<and>
      mset (processedJobs collate (Some js) filterText sortField dir) = mset js)
   \<and> (\<not> list_all is_space filterText \<longrightarrow>
      processedJobs collate (Some js) filterText None dir =
        filter (\<lambda>j. \<exists>s p q. (Title j = Some s \<or> Company j = Some s \<or> Location j = Some s) \<and>
                             toLowerCase s = p @ toLowerCase filterText @ q) js)"
proof -
  have "trim filterText = [] \<longleftrightarrow> list_all is_space filterText"
    by (simp add: trim_empty_iff list_all_iff)
  then show ?thesis
    using filter_passes[of filterText js] processedJobs_mset[of collate js filterText sortField dir]
    by (simp add: processedJobs_unsorted)
qed

theorem filter_blank_or_untrimmed_witness:
  "list_all is_space ''  '' \<and>
   processedJobs compare_units (Some sample_jobs) ''  '' None Asc = sample_jobs \<and>
   \<not> list_all is_space '' acme'' \<and>
   processedJobs compare_units (Some sample_jobs) '' acme'' None Asc = [] \<and>
   processedJobs compare_units (Some sample_jobs) ''acme'' None Asc = [acme_engineer, acme_untitled]"
proof -
  have b: "list_all is_space ''  ''" by code_simp
  have n: "\<not> list_all is_space '' acme''" by code_simp
  have "processedJobs compare_units (Some sample_jobs) '' acme'' None Asc = []" by code_simp
  moreover have "processedJobs compare_units (Some sample_jobs) ''acme'' None Asc =
                   [acme_engineer, acme_untitled]" by code_simp
  ultimately show ?thesis
    using b n filter_blank_or_untrimmed[of "''  ''" compare_units sample_jobs Asc None]
    by simp
qed

text \<open>
  Claim C2, for a collation that is a consistent comparator. In either direction the sorted
  view is a rearrangement of the unsorted one in which the records whose sort values compare
  equal to a given value stand in their original order; ascending, the sort values are in
  order. Sorting the ascending view descending gives the descending view, and position by
  position its records compare equal to those of the ascending view reversed, so the two
  differ only in the order of ties. An absent field and an empty one compare alike. The
  three sample records, sorted by company ascending, stay in their order when \<^verbatim>\<open>Acme\<close>
  collates before \<^verbatim>\<open>Beta\<close>.
\<close>

theorem processedJobs_sort_stable:
  assumes "consistent_comparator collate"
  shows "filter (\<lambda>j. collate (or_else (field_of f j) []) v = 0)
             (processedJobs collate (Some js) filterText (Some f) dir) =
           filter (\<lambda>j. collate (or_else (field_of f j) []) v = 0)
             (processedJobs collate (Some js) filterText None dir)
         \<and> mset (processedJobs collate (Some js) filterText (Some f) dir) =
             mset (processedJobs collate (Some js) filterText None dir)
         \<and> sorted_wrt (\<lambda>a b. collate (or_else (field_of f a) []) (or_else (field_of f b) []) \<le> 0)
             (processedJobs collate (Some js) filterText (Some f) Asc)
         \<and> array_sort (compare_jobs collate f Desc)
               (processedJobs collate (Some js) filterText (Some f) Asc) =
             processedJobs collate (Some js) filterText (Some f) Desc
         \<and> list_all2 (\<lambda>a b. collate (or_else (field_of f a) []) (or_else (field_of f b) []) = 0)
             (processedJobs collate (Some js) filterText (Some f) Desc)
             (rev (processedJobs collate (Some js) filterText (Some f) Asc))
         \<and> (field_of f a = None \<and> field_of f a' = Some [] \<longrightarrow>
              compare_jobs collate f dir a b = compare_jobs collate f dir a' b \<and>
              compare_jobs collate f dir b a = compare_jobs collate f dir b a' \<and>
              compare_jobs collate f dir a a' = 0)
         \<and> (collate ''Acme'' ''Beta'' < 0 \<longrightarrow>
              processedJobs collate (Some sample_jobs) [] (Some SortCompany) Asc =
                [acme_engineer, acme_untitled, beta_analyst])"
proof -
  let ?U = "if trim filterText \<noteq> [] then filter (passes filterText) js else js"
  let ?key = "\<lambda>j. or_else (field_of f j) []"
  let ?asc = "compare_jobs collate f Asc"
  have cc: "consistent_comparator ?asc" using assms by (rule cc_compare_jobs)
  have zero: "compare_jobs collate f dir x y = 0"
    if "collate (?key x) v = 0" "collate (?key y) v = 0" for x y
  proof -
    have "collate v (?key y) = 0" using that(2) cc_eq_sym[OF assms] by metis
    then have "collate (?key x) (?key y) = 0" using that(1) cc_eq_trans[OF assms] by blast
    then show ?thesis by (simp add: compare_jobs_def)
  qed
  have "filter (\<lambda>j. collate (?key j) v = 0) (array_sort (compare_jobs collate f dir) ?U) =
        filter (\<lambda>j. collate (?key j) v = 0) ?U"
    by (rule array_sort_segment) (rule zero)
  then have stable: "filter (\<lambda>j. collate (?key j) v = 0)
                       (processedJobs collate (Some js) filterText (Some f) dir) =
                     filter (\<lambda>j. collate (?key j) v = 0)
                       (processedJobs collate (Some js) filterText None dir)"
    by (simp only: processedJobs_sorted processedJobs_unsorted)
  have perm: "mset (processedJobs collate (Some js) filterText (Some f) dir) =
              mset (processedJobs collate (Some js) filterText None dir)"
    by (rule processedJobs_mset)
  have "sorted_wrt (\<lambda>a b. ?asc a b \<le> 0) (array_sort ?asc ?U)"
    using cc by (rule array_sort_sorted)
  then have sorted: "sorted_wrt (\<lambda>a b. collate (?key a) (?key b) \<le> 0)
                  (processedJobs collate (Some js) filterText (Some f) Asc)"
    by (simp only: processedJobs_sorted processedJobs_unsorted compare_jobs_asc)
  have "array_sort (\<lambda>a b. - ?asc a b) (array_sort ?asc ?U) = array_sort (\<lambda>a b. - ?asc a b) ?U"
    using cc by (rule sort_desc_of_asc)
  then have again: "array_sort (compare_jobs collate f Desc)
                 (processedJobs collate (Some js) filterText (Some f) Asc) =
               processedJobs collate (Some js) filterText (Some f) Desc"
    by (simp only: processedJobs_sorted processedJobs_unsorted compare_jobs_desc)
  have "list_all2 (\<lambda>a b. ?asc a b = 0) (array_sort (\<lambda>a b. - ?asc a b) ?U) (rev (array_sort ?asc ?U))"
    using cc by (rule sort_desc_rev_asc)
  then have "list_all2 (\<lambda>a b. ?asc a b = 0)
          (processedJobs collate (Some js) filterText (Some f) Desc)
          (rev (processedJobs collate (Some js) filterText (Some f) Asc))"
    by (simp only: processedJobs_sorted processedJobs_unsorted compare_jobs_desc)
  then have reversed: "list_all2 (\<lambda>a b. collate (?key a) (?key b) = 0)
          (processedJobs collate (Some js) filterText (Some f) Desc)
          (rev (processedJobs collate (Some js) filterText (Some f) Asc))"
    by (simp only: compare_jobs_asc)
  have missing: "field_of f a = None \<and> field_of f a' = Some [] \<longrightarrow>
              compare_jobs collate f dir a b = compare_jobs collate f dir a' b \<and>
              compare_jobs collate f dir b a = compare_jobs collate f dir b a' \<and>
              compare_jobs collate f dir a a' = 0"
    using cc_refl[OF assms, of "[]"] by (simp add: compare_jobs_def or_else_def)
  have example: "collate ''Acme'' ''Beta'' < 0 \<longrightarrow>
              processedJobs collate (Some sample_jobs) [] (Some SortCompany) Asc =
                [acme_engineer, acme_untitled, beta_analyst]"
    using cc_refl[OF assms, of "''Acme''"]
    by (simp add: processedJobs_def trim_def array_sort_def compare_jobs_def or_else_def
        sample_jobs_def acme_engineer_def acme_untitled_def beta_analyst_def)
  show ?thesis using stable perm sorted again reversed missing example by blast
qed

theorem processedJobs_sort_stable_witness:
  "consistent_comparator compare_units \<and> compare_units ''Acme'' ''Beta'' < 0 \<and>
   processedJobs compare_units (Some sample_jobs) [] (Some SortCompany) Asc =
     [acme_engineer, acme_untitled, beta_analyst] \<and>
   processedJobs compare_units (Some sample_jobs) [] (Some SortCompany) Desc =
     [beta_analyst, acme_engineer, acme_untitled]"
proof -
  have c: "consistent_comparator compare_units" by (rule compare_units_consistent)
  have l: "compare_units ''Acme'' ''Beta'' < 0" by code_simp
  have "processedJobs compare_units (Some sample_jobs) [] (Some SortCompany) Desc =
          [beta_analyst, acme_engineer, acme_untitled]" by code_simp
  then show ?thesis
    using c l processedJobs_sort_stable[OF c, of SortCompany _ sample_jobs "[]" Asc]
    by simp
qed

text \<open>
  Claim C3. For a non-empty job list the summary exists, its \<^verbatim>\<open>totalJobs\<close> is the length of
  the list, and its \<^verbatim>\<open>uniqueCompanies\<close>, the number of distinct company names with
  \<^verbatim>\<open>Unknown\<close> for an absent or empty one (a company named \<^verbatim>\<open>__proto__\<close> is not counted), is
  at most that length. For the empty list, and for an absent one, the result is
  \<^verbatim>\<open>null\<close>.
\<close>

theorem analytics_total_and_unique:
  "analytics (Some []) = None \<and> analytics None = None \<and>
   (js \<noteq> [] \<longrightarrow>
      (\<exists>s. analytics (Some js) = Some s \<and> totalJobs s = length js \<and>
           uniqueCompanies s \<le> length js \<and>
           uniqueCompanies s =
             card ((\<lambda>j. or_else (Company j) ''Unknown'') ` set js - {''__proto__''})))"
  using count_by_length[of Company js] count_by_keys[of Company js]
  by (simp add: analytics_def Let_def)

theorem analytics_total_and_unique_witness:
  "sample_jobs \<noteq> [] \<and>
   analytics (Some sample_jobs) =
     Some \<lparr> totalJobs = 3, uniqueCompanies = 2, uniqueLocations = 1, validLinksPercentage = 0 \<rparr>"
proof -
  have n: "sample_jobs \<noteq> []" by (simp add: sample_jobs_def)
  have "analytics (Some sample_jobs) =
     Some \<lparr> totalJobs = 3, uniqueCompanies = 2, uniqueLocations = 1, validLinksPercentage = 0 \<rparr>"
    by code_simp
  then show ?thesis using n analytics_total_and_unique[of sample_jobs] by simp
qed

text \<open>
  Claim C4 at forty records of which twenty-three have a link. The exact percentage is
  57.5, which rounds to 58. The code divides first: the double nearest to 23/40, times 100,
  is the double just below 57.5, and \<^verbatim>\<open>Math.round\<close> makes it 57. The rest of the claim
  holds: the percentage lies between 0 and 100 and is 100 or 0 at the two extremes
  (\<open>validLinksPercentage_bounds\<close>), and it is the exact percentage rounded unless that
  ends in .5, where it can be one less (\<open>validLinksPercentage_nearly_exact\<close>).
\<close>

theorem validLinksPercentage_of_23_in_40:
  "length forty_jobs = 40 \<and> length (filter valid_link forty_jobs) = 23 \<and>
   map_option validLinksPercentage (analytics (Some forty_jobs)) = Some 57 \<and>
   double_mul (double_div 23 40) 100 = 8092405580431359 / 140737488355328 \<and>
   Math_round (100 * 23 / 40) = 58"
proof -
  have "length forty_jobs = 40" by code_simp
  moreover have "length (filter valid_link forty_jobs) = 23" by code_simp
  moreover have "map_option validLinksPercentage (analytics (Some forty_jobs)) = Some 57"
    by code_simp
  moreover have "double_mul (double_div 23 40) 100 = 8092405580431359 / 140737488355328"
    by code_simp
  moreover have "Math_round (100 * 23 / 40) = 58" by code_simp
  ultimately show ?thesis by simp
qed


end
